theory Spec2Isabelle
  imports Complex_Main "HOL-Library.Char_ord" "HOL-Library.List_Lexorder" "HOL-Library.Multiset"
begin

section \<open>Python values seen by the queue routes\<close>

text \<open>
  The handlers of \<^verbatim>\<open>routes/queue.py\<close> read a parsed JSON payload (a Python dict)
  and answer with a JSON body. A JSON value is one of Python's \<^verbatim>\<open>None\<close>, \<^verbatim>\<open>bool\<close>,
  \<^verbatim>\<open>int\<close>, \<^verbatim>\<open>float\<close>, \<^verbatim>\<open>str\<close>, \<^verbatim>\<open>list\<close> and \<^verbatim>\<open>dict\<close>. Python's
  integers are unbounded (\<open>int\<close>); a finite float is the real number it denotes.
\<close>

datatype json =
    JNull
  | JBool bool
  | JInt int
  | JFloat real
  | JStr string
  | JArr "json list"
  | JObj "(string \<times> json) list"

datatype py_error = KeyError | TypeError | ValueError | OverflowError

text \<open>
  \<^verbatim>\<open>float(i)\<close> of an integer is the double nearest to it, ties going to the even
  mantissa, and raises \<^verbatim>\<open>OverflowError\<close> when that is beyond the range of a double.
  \<open>bit_length\<close> is \<^verbatim>\<open>int.bit_length\<close>; \<open>round_double\<close> keeps the 53 leading bits
  of a magnitude and rounds the rest.
\<close>

fun bit_length :: "nat \<Rightarrow> nat" where
  "bit_length n = (if n = 0 then 0 else Suc (bit_length (n div 2)))"

declare bit_length.simps [simp del]

definition round_double :: "nat \<Rightarrow> nat" where
  "round_double n =
     (if n < 2 ^ 53 then n
      else let shift = bit_length n - 53;
               q = n div 2 ^ shift;
               r = n mod 2 ^ shift;
               half = 2 ^ (shift - 1)
           in (if half < r \<or> (r = half \<and> odd q) then q + 1 else q) * 2 ^ shift)"

definition double_overflow :: "int \<Rightarrow> bool" where
  "double_overflow i \<longleftrightarrow> 2 ^ 1024 \<le> round_double (nat \<bar>i\<bar>)"

definition nearest_double :: "int \<Rightarrow> real" where
  "nearest_double i =
     (if i < 0 then - real (round_double (nat \<bar>i\<bar>)) else real (round_double (nat \<bar>i\<bar>)))"

definition float_of_int :: "int \<Rightarrow> py_error + real" where
  "float_of_int i = (if double_overflow i then Inl OverflowError else Inr (nearest_double i))"

text \<open>
  The text conversions of the Python runtime are not part of the repository and are taken
  as given: \<open>py_repr\<close> is \<^verbatim>\<open>repr\<close> on a JSON value, \<open>int_of_str\<close> and
  \<open>float_of_str\<close> are \<^verbatim>\<open>int\<close> and \<^verbatim>\<open>float\<close> on a \<^verbatim>\<open>str\<close> (\<open>None\<close> where they
  raise \<^verbatim>\<open>ValueError\<close>), \<open>isoformat\<close> is \<^verbatim>\<open>datetime.isoformat\<close>.
\<close>

type_synonym datetime = nat

record py_runtime =
  py_repr :: "json \<Rightarrow> string"
  int_of_str :: "string \<Rightarrow> int option"
  float_of_str :: "string \<Rightarrow> real option"
  isoformat :: "datetime \<Rightarrow> string"

text \<open>\<^verbatim>\<open>str(v)\<close>: a \<^verbatim>\<open>str\<close> is returned as it is, every other JSON value as its \<^verbatim>\<open>repr\<close>.\<close>

definition py_str :: "py_runtime \<Rightarrow> json \<Rightarrow> string" where
  "py_str rt v = (case v of JStr s \<Rightarrow> s | _ \<Rightarrow> py_repr rt v)"

text \<open>\<^verbatim>\<open>int(v)\<close>: truncation towards zero on a float, \<^verbatim>\<open>TypeError\<close> on
  \<^verbatim>\<open>None\<close>, a list or a dict.\<close>

definition py_int :: "py_runtime \<Rightarrow> json \<Rightarrow> py_error + int" where
  "py_int rt v =
     (case v of
        JInt i \<Rightarrow> Inr i
      | JBool b \<Rightarrow> Inr (if b then 1 else 0)
      | JFloat r \<Rightarrow> Inr (if 0 \<le> r then \<lfloor>r\<rfloor> else \<lceil>r\<rceil>)
      | JStr s \<Rightarrow> (case int_of_str rt s of None \<Rightarrow> Inl ValueError | Some i \<Rightarrow> Inr i)
      | _ \<Rightarrow> Inl TypeError)"

definition py_float :: "py_runtime \<Rightarrow> json \<Rightarrow> py_error + real" where
  "py_float rt v =
     (case v of
        JInt i \<Rightarrow> float_of_int i
      | JBool b \<Rightarrow> Inr (if b then 1 else 0)
      | JFloat r \<Rightarrow> Inr r
      | JStr s \<Rightarrow> (case float_of_str rt s of None \<Rightarrow> Inl ValueError | Some r \<Rightarrow> Inr r)
      | _ \<Rightarrow> Inl TypeError)"

definition py_bool :: "json \<Rightarrow> bool" where
  "py_bool v =
     (case v of
        JNull \<Rightarrow> False
      | JBool b \<Rightarrow> b
      | JInt i \<Rightarrow> i \<noteq> 0
      | JFloat r \<Rightarrow> r \<noteq> 0
      | JStr s \<Rightarrow> s \<noteq> []
      | JArr xs \<Rightarrow> xs \<noteq> []
      | JObj kvs \<Rightarrow> kvs \<noteq> [])"

text \<open>\<^verbatim>\<open>isinstance(v, bool)\<close> and \<^verbatim>\<open>isinstance(v, (int, float))\<close>. In Python
  \<^verbatim>\<open>bool\<close> is a subclass of \<^verbatim>\<open>int\<close>, so the second test accepts \<^verbatim>\<open>True\<close> and
  \<^verbatim>\<open>False\<close>.\<close>

definition isinstance_bool :: "json \<Rightarrow> bool" where
  "isinstance_bool v = (case v of JBool _ \<Rightarrow> True | _ \<Rightarrow> False)"

definition isinstance_int_float :: "json \<Rightarrow> bool" where
  "isinstance_int_float v =
     (case v of JInt _ \<Rightarrow> True | JBool _ \<Rightarrow> True | JFloat _ \<Rightarrow> True | _ \<Rightarrow> False)"

text \<open>A parsed payload is a dict from keys to JSON values: \<^verbatim>\<open>data[k]\<close> raises
  \<^verbatim>\<open>KeyError\<close> on a missing key, \<^verbatim>\<open>data.get(k)\<close> gives \<^verbatim>\<open>None\<close>.\<close>

type_synonym payload = "string \<rightharpoonup> json"

definition getitem :: "payload \<Rightarrow> string \<Rightarrow> py_error + json" where
  "getitem data k = (case data k of None \<Rightarrow> Inl KeyError | Some v \<Rightarrow> Inr v)"

definition dict_get :: "payload \<Rightarrow> string \<Rightarrow> json" where
  "dict_get data k = (case data k of None \<Rightarrow> JNull | Some v \<Rightarrow> v)"

definition dict_get_default :: "payload \<Rightarrow> string \<Rightarrow> json \<Rightarrow> json" where
  "dict_get_default data k d = (case data k of None \<Rightarrow> d | Some v \<Rightarrow> v)"

text \<open>Sequencing of computations that may raise: the first exception is the result.\<close>

definition and_then :: "py_error + 'a \<Rightarrow> ('a \<Rightarrow> py_error + 'b) \<Rightarrow> py_error + 'b" where
  "and_then m f = (case m of Inl err \<Rightarrow> Inl err | Inr x \<Rightarrow> f x)"

section \<open>The queue table\<close>

text \<open>
  A row of the \<^verbatim>\<open>QueueEntry\<close> model, with the attributes the routes read and write
  (the primary key \<^verbatim>\<open>id\<close> is the field \<open>id_col\<close>). The table is the list of its rows
  in storage order; the primary key makes the ids of a table pairwise distinct.
\<close>

record QueueEntry =
  id_col :: string
  name :: string
  guests :: int
  notification_method :: string
  contact :: string
  hall :: string
  segment :: string
  position :: int
  estimated_wait_minutes :: real
  joined_at :: datetime
  queue_date :: string
  notified_at_5_min :: bool

type_synonym store = "QueueEntry list"

definition well_formed :: "store \<Rightarrow> bool" where
  "well_formed s = distinct (map id_col s)"

text \<open>\<^verbatim>\<open>QueueEntry.query.get(k)\<close>: the row with primary key \<open>k\<close>, if any.\<close>

definition query_get :: "string \<Rightarrow> store \<Rightarrow> QueueEntry option" where
  "query_get k s = find (\<lambda>r. id_col r = k) s"

text \<open>\<^verbatim>\<open>db.session.merge(entry)\<close> followed by a commit: the row with the entry's
  primary key is overwritten where there is one, else the entry is inserted.\<close>

definition session_merge :: "QueueEntry \<Rightarrow> store \<Rightarrow> store" where
  "session_merge e s =
     (if id_col e \<in> set (map id_col s)
      then map (\<lambda>r. if id_col r = id_col e then e else r) s
      else s @ [e])"

text \<open>\<^verbatim>\<open>db.session.delete(entry)\<close> followed by a commit.\<close>

definition session_delete :: "QueueEntry \<Rightarrow> store \<Rightarrow> store" where
  "session_delete e s = filter (\<lambda>r. id_col r \<noteq> id_col e) s"

text \<open>A commit after attributes of a loaded row were assigned: the row is written back
  under its primary key.\<close>

definition session_update :: "QueueEntry \<Rightarrow> store \<Rightarrow> store" where
  "session_update e s = map (\<lambda>r. if id_col r = id_col e then e else r) s"

text \<open>The filter on the four columns that make a group.\<close>

definition in_group :: "string \<Rightarrow> int \<Rightarrow> string \<Rightarrow> string \<Rightarrow> QueueEntry \<Rightarrow> bool" where
  "in_group d g h sg r \<longleftrightarrow> queue_date r = d \<and> guests r = g \<and> hall r = h \<and> segment r = sg"

text \<open>\<^verbatim>\<open>ORDER BY\<close>: the rows sorted by a comparison \<open>le a b\<close> (``\<open>a\<close> is listed no
  later than \<open>b\<close>''), by insertion.\<close>

fun insert_by :: "('a \<Rightarrow> 'a \<Rightarrow> bool) \<Rightarrow> 'a \<Rightarrow> 'a list \<Rightarrow> 'a list" where
  "insert_by le x [] = [x]"
| "insert_by le x (y # ys) = (if le x y then x # y # ys else y # insert_by le x ys)"

definition order_by :: "('a \<Rightarrow> 'a \<Rightarrow> bool) \<Rightarrow> 'a list \<Rightarrow> 'a list" where
  "order_by le xs = foldr (insert_by le) xs []"

section \<open>The routes\<close>

type_synonym response = "nat \<times> json"

text \<open>\<^verbatim>\<open>utils.json_response\<close> is outside the sources at hand: it pairs the body with the
  HTTP status, 200 when none is given.\<close>

definition json_response :: "json \<Rightarrow> nat \<Rightarrow> response" where
  "json_response body status = (status, body)"

definition json_response_ok :: "json \<Rightarrow> response" where
  "json_response_ok body = json_response body 200"

text \<open>\<^verbatim>\<open>serialize_entry\<close>: the dict of the twelve keys, in the order of the source. The
  flag is a boolean column, so \<^verbatim>\<open>bool(e.notified_at_5_min)\<close> is the flag itself.\<close>

definition serialize_entry :: "py_runtime \<Rightarrow> QueueEntry \<Rightarrow> (string \<times> json) list" where
  "serialize_entry rt e =
     [(''id'', JStr (id_col e)),
      (''name'', JStr (name e)),
      (''guests'', JInt (guests e)),
      (''notificationMethod'', JStr (notification_method e)),
      (''contact'', JStr (contact e)),
      (''hall'', JStr (hall e)),
      (''segment'', JStr (segment e)),
      (''position'', JInt (position e)),
      (''estimatedWaitMinutes'', JFloat (estimated_wait_minutes e)),
      (''joinedAt'', JStr (isoformat rt (joined_at e))),
      (''queueDate'', JStr (queue_date e)),
      (''notifiedAt5Min'', JBool (notified_at_5_min e))]"

text \<open>The order of \<^verbatim>\<open>list_queue\<close>: date descending, then hall, segment and position
  ascending. Strings are compared lexicographically by character code.\<close>

definition list_order :: "QueueEntry \<Rightarrow> QueueEntry \<Rightarrow> bool" where
  "list_order a b \<longleftrightarrow>
     queue_date b < queue_date a \<or>
     (queue_date a = queue_date b \<and>
       (hall a < hall b \<or>
        (hall a = hall b \<and>
          (segment a < segment b \<or>
           (segment a = segment b \<and> position a \<le> position b)))))"

text \<open>\<^verbatim>\<open>list_queue\<close>, with \<^verbatim>\<open>request.args.get("queueDate")\<close> as the argument
  \<open>date\<close>: an absent or empty value does not filter.\<close>

definition list_queue :: "py_runtime \<Rightarrow> string option \<Rightarrow> store \<Rightarrow> response" where
  "list_queue rt date s =
     (let q = (case date of
                 None \<Rightarrow> s
               | Some d \<Rightarrow> if d \<noteq> [] then filter (\<lambda>r. queue_date r = d) s else s);
          rows = order_by list_order q
      in json_response_ok (JObj [(''entries'', JArr (map (\<lambda>e. JObj (serialize_entry rt e)) rows))]))"

text \<open>\<^verbatim>\<open>_next_position\<close>: the number of rows of the group, plus one.\<close>

definition next_position :: "string \<Rightarrow> int \<Rightarrow> string \<Rightarrow> string \<Rightarrow> store \<Rightarrow> int" where
  "next_position d g h sg s = int (length (filter (in_group d g h sg) s)) + 1"

definition required :: "string list" where
  "required = [''id'', ''name'', ''guests'', ''notificationMethod'', ''contact'', ''hall'',
     ''segment'', ''queueDate'']"

text \<open>\<^verbatim>\<open>join_queue\<close>, with the reading of the clock (\<^verbatim>\<open>datetime.utcnow()\<close>) as the
  argument \<open>now\<close>. An exception leaves the handler before anything is written. The
  position is a count of rows of the table, and \<^verbatim>\<open>float(position * 60)\<close> is taken as
  that number: a double holds it exactly below \<open>2 ^ 53\<close>.\<close>

definition join_queue ::
  "py_runtime \<Rightarrow> datetime \<Rightarrow> payload \<Rightarrow> store \<Rightarrow> py_error + (response \<times> store)" where
  "join_queue rt now data s =
     (case find (\<lambda>k. data k = None) required of
        Some k \<Rightarrow> Inr (json_response (JObj [(''error'', JStr (k @ ''_required''))]) 400, s)
      | None \<Rightarrow>
          and_then (getitem data ''guests'') (\<lambda>v_guests.
          and_then (py_int rt v_guests) (\<lambda>g.
          and_then (getitem data ''hall'') (\<lambda>v_hall.
          and_then (getitem data ''segment'') (\<lambda>v_segment.
          and_then (getitem data ''queueDate'') (\<lambda>v_date.
          let h = py_str rt v_hall;
              sg = py_str rt v_segment;
              d = py_str rt v_date;
              pos = next_position d g h sg s;
              wait = real_of_int (pos * 60)
          in
          and_then (getitem data ''id'') (\<lambda>v_id.
          and_then (getitem data ''name'') (\<lambda>v_name.
          and_then (getitem data ''notificationMethod'') (\<lambda>v_method.
          and_then (getitem data ''contact'') (\<lambda>v_contact.
          let entry = \<lparr> id_col = py_str rt v_id,
                        name = py_str rt v_name,
                        guests = g,
                        notification_method = py_str rt v_method,
                        contact = py_str rt v_contact,
                        hall = h,
                        segment = sg,
                        position = pos,
                        estimated_wait_minutes = wait,
                        joined_at = now,
                        queue_date = d,
                        notified_at_5_min =
                          py_bool (dict_get_default data ''notifiedAt5Min'' (JBool False)) \<rparr>
          in Inr (json_response (JObj (serialize_entry rt entry)) 201,
                  session_merge entry s)))))))))))"

text \<open>The body of the loop of \<^verbatim>\<open>_resequence\<close>: the row gets position \<open>idx\<close> and
  the wait that goes with it. The row is a loaded object of the session; the commit writes
  it back under its primary key.\<close>

definition reposition :: "nat \<Rightarrow> QueueEntry \<Rightarrow> QueueEntry" where
  "reposition idx r =
     r\<lparr> position := int idx, estimated_wait_minutes := real_of_int (int idx * 60) \<rparr>"

definition assign_position :: "string \<Rightarrow> nat \<Rightarrow> store \<Rightarrow> store" where
  "assign_position k idx s = map (\<lambda>r. if id_col r = k then reposition idx r else r) s"

text \<open>\<^verbatim>\<open>_resequence\<close>: the rows of the group in ascending join time, numbered from 1.\<close>

definition resequence :: "string \<Rightarrow> int \<Rightarrow> string \<Rightarrow> string \<Rightarrow> store \<Rightarrow> store" where
  "resequence d g h sg s =
     (let rows = order_by (\<lambda>a b. joined_at a \<le> joined_at b) (filter (in_group d g h sg) s)
      in fold (\<lambda>(idx, row). assign_position (id_col row) idx) (enumerate 1 rows) s)"

text \<open>\<^verbatim>\<open>cancel_queue\<close>: the group of the row is read before the row is deleted, and
  resequenced after.\<close>

definition cancel_queue :: "string \<Rightarrow> store \<Rightarrow> response \<times> store" where
  "cancel_queue entry_id s =
     (case query_get entry_id s of
        None \<Rightarrow> (json_response (JObj [(''error'', JStr ''not_found'')]) 404, s)
      | Some entry \<Rightarrow>
          (let s1 = session_delete entry s;
               s2 = resequence (queue_date entry) (guests entry) (hall entry) (segment entry) s1
           in (json_response_ok (JObj [(''ok'', JBool True)]), s2)))"

text \<open>\<^verbatim>\<open>update_queue_entry\<close>: two guarded assignments to the loaded row, then the commit.
  Under its guard the first assigned value is a \<^verbatim>\<open>bool\<close>, stored as its truth value;
  the second is converted by \<^verbatim>\<open>float\<close>, which raises on an integer beyond the range
  of a double: the handler is then left before the commit.\<close>

definition update_queue_entry ::
  "py_runtime \<Rightarrow> string \<Rightarrow> payload \<Rightarrow> store \<Rightarrow> py_error + (response \<times> store)" where
  "update_queue_entry rt entry_id data s =
     (case query_get entry_id s of
        None \<Rightarrow> Inr (json_response (JObj [(''error'', JStr ''not_found'')]) 404, s)
      | Some entry \<Rightarrow>
          and_then
            (if isinstance_bool (dict_get data ''notifiedAt5Min'')
             then and_then (getitem data ''notifiedAt5Min'')
                    (\<lambda>v. Inr (entry\<lparr> notified_at_5_min := py_bool v \<rparr>))
             else Inr entry) (\<lambda>e1.
          and_then
            (if isinstance_int_float (dict_get data ''estimatedWaitMinutes'')
             then and_then (getitem data ''estimatedWaitMinutes'') (\<lambda>v.
                  and_then (py_float rt v) (\<lambda>w.
                  Inr (e1\<lparr> estimated_wait_minutes := w \<rparr>)))
             else Inr e1) (\<lambda>e2.
          Inr (json_response_ok (JObj (serialize_entry rt e2)), session_update e2 s))))"

section \<open>Sequences of requests\<close>

text \<open>The requests that write the table. A request whose handler raises is answered by
  the framework with status 500 and leaves the table as it was.\<close>

datatype request =
    Join datetime payload
  | Cancel string
  | Patch string payload

definition handle :: "py_runtime \<Rightarrow> request \<Rightarrow> store \<Rightarrow> store" where
  "handle rt rq s =
     (case rq of
        Join now data \<Rightarrow> (case join_queue rt now data s of Inl _ \<Rightarrow> s | Inr (_, s') \<Rightarrow> s')
      | Cancel k \<Rightarrow> snd (cancel_queue k s)
      | Patch k data \<Rightarrow>
          (case update_queue_entry rt k data s of Inl _ \<Rightarrow> s | Inr (_, s') \<Rightarrow> s'))"

definition run :: "py_runtime \<Rightarrow> request list \<Rightarrow> store \<Rightarrow> store" where
  "run rt rqs s = fold (handle rt) rqs s"

section \<open>The collections of the document store\<close>

text \<open>
  The accessors of \<^verbatim>\<open>mongo.py\<close> fetch a collection of the database and create its
  indexes inside \<^verbatim>\<open>try: ... except Exception: pass\<close>. An index is a key and the
  \<^verbatim>\<open>unique\<close> flag (\<^verbatim>\<open>False\<close> when the call does not give it). The driver's
  \<^verbatim>\<open>create_index\<close> is outside the repository: it is a parameter, a function of the
  collection, the index and the state of the server that either raises or returns, and
  leaves a state in both cases. The database handle of \<^verbatim>\<open>get_db()\<close> is taken as given.
\<close>

datatype index = Index string bool

datatype ('e, 'db) outcome = Raised 'e 'db | Done 'db

type_synonym ('e, 'db) driver = "string \<Rightarrow> index \<Rightarrow> 'db \<Rightarrow> ('e, 'db) outcome"

text \<open>The statements of a \<^verbatim>\<open>try\<close> block, one \<^verbatim>\<open>create_index\<close> call each: the first
  call that raises ends the block.\<close>

fun create_all :: "('e, 'db) driver \<Rightarrow> string \<Rightarrow> index list \<Rightarrow> 'db \<Rightarrow> ('e, 'db) outcome" where
  "create_all create_index c [] db = Done db"
| "create_all create_index c (i # specs) db =
     (case create_index c i db of
        Raised err db' \<Rightarrow> Raised err db'
      | Done db' \<Rightarrow> create_all create_index c specs db')"

text \<open>\<^verbatim>\<open>except Exception: pass\<close>: the exception is dropped, the state is the one the
  failed call left.\<close>

definition except_pass :: "('e, 'db) outcome \<Rightarrow> 'db" where
  "except_pass r = (case r of Raised err db \<Rightarrow> db | Done db \<Rightarrow> db)"

definition get_users_collection :: "('e, 'db) driver \<Rightarrow> 'db \<Rightarrow> 'e + string \<times> 'db" where
  "get_users_collection create_index db =
     (let users = ''users'';
          db' = except_pass (create_all create_index users [Index ''email'' True] db)
      in Inr (users, db'))"

definition get_menu_collection :: "('e, 'db) driver \<Rightarrow> 'db \<Rightarrow> 'e + string \<times> 'db" where
  "get_menu_collection create_index db =
     (let menu = ''menu_items'';
          db' = except_pass (create_all create_index menu
                  [Index ''id'' True, Index ''category'' False, Index ''isVeg'' False] db)
      in Inr (menu, db'))"

definition get_feedback_collection :: "('e, 'db) driver \<Rightarrow> 'db \<Rightarrow> 'e + string \<times> 'db" where
  "get_feedback_collection create_index db =
     (let feedback = ''feedback'';
          db' = except_pass (create_all create_index feedback
                  [Index ''id'' True, Index ''userId'' False, Index ''orderId'' False,
                   Index ''createdAt'' False] db)
      in Inr (feedback, db'))"

definition get_orders_collection :: "('e, 'db) driver \<Rightarrow> 'db \<Rightarrow> 'e + string \<times> 'db" where
  "get_orders_collection create_index db =
     (let orders = ''orders'';
          db' = except_pass (create_all create_index orders
                  [Index ''id'' True, Index ''userId'' False, Index ''date'' False] db)
      in Inr (orders, db'))"

definition get_reservations_collection :: "('e, 'db) driver \<Rightarrow> 'db \<Rightarrow> 'e + string \<times> 'db" where
  "get_reservations_collection create_index db =
     (let reservations = ''reservations'';
          db' = except_pass (create_all create_index reservations
                  [Index ''reservationId'' True, Index ''userId'' False, Index ''date'' False,
                   Index ''timeSlot'' False] db)
      in Inr (reservations, db'))"

definition get_waiting_queue_collection :: "('e, 'db) driver \<Rightarrow> 'db \<Rightarrow> 'e + string \<times> 'db" where
  "get_waiting_queue_collection create_index db =
     (let waiting = ''reservation_waiting_queue'';
          db' = except_pass (create_all create_index waiting
                  [Index ''queueId'' True, Index ''userId'' False, Index ''date'' False,
                   Index ''timeSlot'' False] db)
      in Inr (waiting, db'))"

section \<open>Vocabulary of the properties\<close>

text \<open>The answer to a request for a row that does not exist.\<close>

definition not_found :: response where
  "not_found = (404, JObj [(''error'', JStr ''not_found'')])"

text \<open>What a \<^verbatim>\<open>PATCH\<close> payload makes of the flag and of the wait of a row: the
  payload's value where it passes the type test of the handler, the row's own value
  otherwise.\<close>

definition patched_flag :: "payload \<Rightarrow> QueueEntry \<Rightarrow> bool" where
  "patched_flag data e =
     (case data ''notifiedAt5Min'' of Some (JBool b) \<Rightarrow> b | _ \<Rightarrow> notified_at_5_min e)"

definition patched_wait :: "payload \<Rightarrow> QueueEntry \<Rightarrow> real" where
  "patched_wait data e =
     (case data ''estimatedWaitMinutes'' of
        Some (JInt i) \<Rightarrow> nearest_double i
      | Some (JFloat r) \<Rightarrow> r
      | Some (JBool b) \<Rightarrow> (if b then 1 else 0)
      | _ \<Rightarrow> estimated_wait_minutes e)"

text \<open>The payload of a \<^verbatim>\<open>PATCH\<close> whose \<^verbatim>\<open>estimatedWaitMinutes\<close> is an integer beyond
  the range of a double.\<close>

definition wait_overflows :: "payload \<Rightarrow> bool" where
  "wait_overflows data =
     (case data ''estimatedWaitMinutes'' of Some (JInt i) \<Rightarrow> double_overflow i | _ \<Rightarrow> False)"

text \<open>A join payload that carries every required field and whose conversions give the
  id \<open>k\<close> and the group \<open>(d, g, h, sg)\<close>: date, party size, hall and segment.\<close>

definition joins_group ::
  "py_runtime \<Rightarrow> payload \<Rightarrow> string \<Rightarrow> string \<Rightarrow> int \<Rightarrow> string \<Rightarrow> string \<Rightarrow> bool" where
  "joins_group rt data k d g h sg \<longleftrightarrow>
     map_option (py_str rt) (data ''id'') = Some k \<and>
     data ''name'' \<noteq> None \<and>
     map_option (py_int rt) (data ''guests'') = Some (Inr g) \<and>
     data ''notificationMethod'' \<noteq> None \<and>
     data ''contact'' \<noteq> None \<and>
     map_option (py_str rt) (data ''hall'') = Some h \<and>
     map_option (py_str rt) (data ''segment'') = Some sg \<and>
     map_option (py_str rt) (data ''queueDate'') = Some d"

text \<open>A batch of joins, each with the reading of the clock at its arrival.\<close>

definition join_requests :: "(datetime \<times> payload) list \<Rightarrow> request list" where
  "join_requests js = map (\<lambda>(t, data). Join t data) js"

text \<open>What the loop of \<^verbatim>\<open>_resequence\<close> over the rows \<open>rs\<close>, counted from \<open>n\<close>,
  makes of one row of the table.\<close>

fun renumber :: "nat \<Rightarrow> QueueEntry list \<Rightarrow> QueueEntry \<Rightarrow> QueueEntry" where
  "renumber n [] r = r"
| "renumber n (x # xs) r =
     renumber (Suc n) xs (if id_col r = id_col x then reposition n r else r)"

text \<open>The wait of a row is the one that goes with its position; a request overrides the
  wait when it is a \<^verbatim>\<open>PATCH\<close> whose \<^verbatim>\<open>estimatedWaitMinutes\<close> passes the type test
  of the handler.\<close>

definition wait_matches :: "QueueEntry \<Rightarrow> bool" where
  "wait_matches r \<longleftrightarrow> estimated_wait_minutes r = real_of_int (position r * 60)"

definition overrides_wait :: "request \<Rightarrow> bool" where
  "overrides_wait rq =
     (case rq of
        Patch k data \<Rightarrow> isinstance_int_float (dict_get data ''estimatedWaitMinutes'')
      | _ \<Rightarrow> False)"

text \<open>The rows of a group are sequenced when, read in the order of their positions, the
  positions are 1, 2, ..., N and the join times ascend.\<close>

definition sequenced :: "QueueEntry list \<Rightarrow> bool" where
  "sequenced rows \<longleftrightarrow>
     map position (sort_key position rows) = map int [1..<Suc (length rows)] \<and>
     sorted (map joined_at (sort_key position rows))"

text \<open>A join is fresh for a table when its id is not yet in the table and its clock reading
  is not earlier than a join time already stored; a sequence of requests is admissible
  from a table when each of its joins is fresh for the table it meets.\<close>

definition fresh_join :: "py_runtime \<Rightarrow> request \<Rightarrow> store \<Rightarrow> bool" where
  "fresh_join rt rq s =
     (case rq of
        Join now data \<Rightarrow>
          (case data ''id'' of None \<Rightarrow> True | Some v \<Rightarrow> py_str rt v \<notin> set (map id_col s)) \<and>
          (\<forall>r \<in> set s. joined_at r \<le> now)
      | _ \<Rightarrow> True)"

fun admissible :: "py_runtime \<Rightarrow> request list \<Rightarrow> store \<Rightarrow> bool" where
  "admissible rt [] s = True"
| "admissible rt (rq # rqs) s \<longleftrightarrow> fresh_join rt rq s \<and> admissible rt rqs (handle rt rq s)"

text \<open>The same property of a group, with the listing given by some arrangement of the
  rows; and the table all of whose groups have it.\<close>

definition listed :: "QueueEntry list \<Rightarrow> bool" where
  "listed grp \<longleftrightarrow>
     (\<exists>rows. mset rows = mset grp \<and>
        map position rows = map int [1..<Suc (length grp)] \<and>
        sorted (map joined_at rows))"

definition ordered_store :: "store \<Rightarrow> bool" where
  "ordered_store s \<longleftrightarrow>
     well_formed s \<and> (\<forall>d g h sg. listed (filter (in_group d g h sg) s))"

text \<open>The six accessors, each with the collection it returns and the indexes it creates,
  in the order of the source.\<close>

definition accessors ::
  "('e, 'db) driver \<Rightarrow> (string \<times> index list \<times> ('db \<Rightarrow> 'e + string \<times> 'db)) list" where
  "accessors create_index =
     [(''users'', [Index ''email'' True], get_users_collection create_index),
      (''menu_items'', [Index ''id'' True, Index ''category'' False, Index ''isVeg'' False],
         get_menu_collection create_index),
      (''feedback'',
         [Index ''id'' True, Index ''userId'' False, Index ''orderId'' False,
          Index ''createdAt'' False],
         get_feedback_collection create_index),
      (''orders'', [Index ''id'' True, Index ''userId'' False, Index ''date'' False],
         get_orders_collection create_index),
      (''reservations'',
         [Index ''reservationId'' True, Index ''userId'' False, Index ''date'' False,
          Index ''timeSlot'' False],
         get_reservations_collection create_index),
      (''reservation_waiting_queue'',
         [Index ''queueId'' True, Index ''userId'' False, Index ''date'' False,
          Index ''timeSlot'' False],
         get_waiting_queue_collection create_index)]"

text \<open>A driver that also records every call of \<^verbatim>\<open>create_index\<close>, in a list kept beside
  the state of the server: the collection, the index, and whether the call returned
  (\<open>True\<close>) or raised (\<open>False\<close>).\<close>

definition logging ::
  "('e, 'db) driver \<Rightarrow> ('e, (string \<times> index \<times> bool) list \<times> 'db) driver" where
  "logging create_index c i =
     (\<lambda>(calls, db). case create_index c i db of
        Raised err db' \<Rightarrow> Raised err (calls @ [(c, i, False)], db')
      | Done db' \<Rightarrow> Done (calls @ [(c, i, True)], db'))"

text \<open>The number of indexes at the head of a list whose creation, one after the other
  from a state of the server, returns.\<close>

fun returned :: "('e, 'db) driver \<Rightarrow> string \<Rightarrow> index list \<Rightarrow> 'db \<Rightarrow> nat" where
  "returned create_index c [] db = 0"
| "returned create_index c (i # specs) db =
     (case create_index c i db of
        Raised err db' \<Rightarrow> 0
      | Done db' \<Rightarrow> Suc (returned create_index c specs db'))"

subsection \<open>Concrete data for the examples\<close>

definition example_runtime :: py_runtime where
  "example_runtime =
     \<lparr> py_repr = (\<lambda>v. case v of JInt i \<Rightarrow> (if i = 2 then ''2'' else ''?'') | _ \<Rightarrow> ''?''),
       int_of_str = (\<lambda>s. if s = ''2'' then Some 2 else None),
       float_of_str = (\<lambda>s. None),
       isoformat = (\<lambda>t. replicate t CHR ''t'') \<rparr>"

definition example_payload :: "string \<Rightarrow> payload" where
  "example_payload k =
     [''id'' \<mapsto> JStr k, ''name'' \<mapsto> JStr ''Asha'', ''guests'' \<mapsto> JInt 2,
      ''notificationMethod'' \<mapsto> JStr ''sms'', ''contact'' \<mapsto> JStr ''555'',
      ''hall'' \<mapsto> JStr ''AC'', ''segment'' \<mapsto> JStr ''front'',
      ''queueDate'' \<mapsto> JStr ''2026-01-31'']"

definition example_entry :: "string \<Rightarrow> int \<Rightarrow> datetime \<Rightarrow> QueueEntry" where
  "example_entry k pos t =
     \<lparr> id_col = k, name = ''Asha'', guests = 2, notification_method = ''sms'',
       contact = ''555'', hall = ''AC'', segment = ''front'', position = pos,
       estimated_wait_minutes = real_of_int (pos * 60), joined_at = t,
       queue_date = ''2026-01-31'', notified_at_5_min = False \<rparr>"

text \<open>A server that keeps the list of its indexes: creating an index that exists changes
  nothing, creating one whose key exists with the other \<^verbatim>\<open>unique\<close> flag raises.\<close>

definition example_create_index :: "(string, (string \<times> index) list) driver" where
  "example_create_index c i db =
     (if (c, i) \<in> set db then Done db
      else (case i of Index k u \<Rightarrow>
              if (c, Index k (\<not> u)) \<in> set db then Raised ''IndexOptionsConflict'' db
              else Done (db @ [(c, i)])))"

text \<open>A server on which the creation of the index on \<^verbatim>\<open>category\<close> fails, whatever its
  state, and every other index is created.\<close>

definition example_failing_index :: "(string, (string \<times> index) list) driver" where
  "example_failing_index c i db =
     (if i = Index ''category'' False then Raised ''OperationFailure'' db
      else Done (db @ [(c, i)]))"

section \<open>The double nearest to an integer\<close>

text \<open>The bit length of a positive number is one more than the exponent of the greatest
  power of two below it.\<close>

lemma bit_length_pos: "0 < n \<Longrightarrow> bit_length n = Suc (bit_length (n div 2))"
  by (subst bit_length.simps) simp

lemma bit_length_bounds: "0 < n \<Longrightarrow> 2 ^ (bit_length n - 1) \<le> n \<and> n < 2 ^ bit_length n"
proof (induction n rule: bit_length.induct)
  case (1 n)
  note bl = bit_length_pos [OF "1.prems"]
  show ?case
  proof (cases "n div 2 = 0")
    case True
    with "1.prems" have "n = 1" by (simp add: div_eq_0_iff)
    then show ?thesis by (simp add: bit_length.simps [of "Suc 0"] bit_length.simps [of 0])
  next
    case False
    with 1 have ih: "2 ^ (bit_length (n div 2) - 1) \<le> n div 2"
      "n div 2 < 2 ^ bit_length (n div 2)"
      by simp_all
    from False have "bit_length (n div 2) = Suc (bit_length (n div 2 div 2))"
      by (simp add: bit_length_pos)
    then have e: "(2::nat) ^ (bit_length n - 1) = 2 * 2 ^ (bit_length (n div 2) - 1)"
      unfolding bl by simp
    from ih(1) have "2 * 2 ^ (bit_length (n div 2) - 1) \<le> n" by linarith
    moreover from ih(2) have "n < 2 * 2 ^ bit_length (n div 2)" by linarith
    ultimately show ?thesis unfolding e unfolding bl by simp
  qed
qed

lemma bit_length_eq:
  assumes "2 ^ k \<le> n" and "n < 2 ^ Suc k"
  shows "bit_length n = Suc k"
proof -
  from assms(1) have pos: "0 < n"
    by (metis gr0I le_zero_eq power_not_zero zero_neq_numeral)
  from bit_length_bounds [OF pos] have bd: "2 ^ (bit_length n - 1) \<le> n" "n < 2 ^ bit_length n"
    by simp_all
  from assms(1) bd(2) have "(2::nat) ^ k < 2 ^ bit_length n" by linarith
  then have 1: "k < bit_length n" by (simp add: power_strict_increasing_iff)
  from assms(2) bd(1) have "(2::nat) ^ (bit_length n - 1) < 2 ^ Suc k" by linarith
  then have "bit_length n - 1 < Suc k"
    using power_less_imp_less_exp [of "2::nat" "bit_length n - 1" "Suc k"] by simp
  with 1 show ?thesis by linarith
qed

lemma round_double_ge:
  assumes "2 ^ k \<le> n" and "53 \<le> k"
  shows "2 ^ k \<le> round_double n"
proof -
  from assms(2) have "(2::nat) ^ 53 \<le> 2 ^ k" by (rule power_increasing) simp
  with assms(1) have big: "\<not> n < 2 ^ 53" by linarith
  from assms(1) have pos: "0 < n"
    by (metis gr0I le_zero_eq power_not_zero zero_neq_numeral)
  define top where "top = bit_length n - 1"
  define shift where "shift = bit_length n - 53"
  define q where "q = n div 2 ^ shift"
  from bit_length_bounds [OF pos] have bd: "2 ^ top \<le> n" "n < 2 ^ bit_length n"
    by (simp_all add: top_def)
  from assms(1) bd(2) have "(2::nat) ^ k < 2 ^ bit_length n" by linarith
  then have "k < bit_length n" by (simp add: power_strict_increasing_iff)
  with assms(2) have sh: "shift \<le> top" and kt: "k \<le> top"
    by (simp_all add: shift_def top_def)
  from sh have split: "2 ^ top = 2 ^ (top - shift) * (2::nat) ^ shift"
    by (simp add: power_add [symmetric])
  from bd(1) have "2 ^ top div 2 ^ shift \<le> q"
    unfolding q_def by (rule div_le_mono)
  then have "2 ^ (top - shift) \<le> q"
    unfolding split by simp
  then have "2 ^ (top - shift) * (2::nat) ^ shift \<le> q * 2 ^ shift"
    by simp
  then have 1: "2 ^ top \<le> q * 2 ^ shift"
    unfolding split [symmetric] .
  from kt have 2: "(2::nat) ^ k \<le> 2 ^ top" by (rule power_increasing) simp
  have "q * 2 ^ shift \<le> round_double n"
    unfolding round_double_def Let_def using big
    by (simp add: q_def shift_def)
  with 1 2 show ?thesis by linarith
qed

text \<open>An integer whose magnitude is \<open>2 ^ 1024\<close> or more is beyond the range of a
  double; one whose magnitude is below \<open>2 ^ 53\<close> is a double itself; and
  \<open>2 ^ 53 + 1\<close>, halfway between two doubles, goes to the even one.\<close>

lemma double_overflow_ge: "2 ^ 1024 \<le> \<bar>i\<bar> \<Longrightarrow> double_overflow i"
proof -
  assume a: "2 ^ 1024 \<le> \<bar>i\<bar>"
  have "int (2 ^ 1024) \<le> \<bar>i\<bar>" using a by simp
  then have "(2::nat) ^ 1024 \<le> nat \<bar>i\<bar>" by linarith
  from round_double_ge [OF this] show ?thesis
    by (simp add: double_overflow_def)
qed

lemma float_of_int_overflow: "2 ^ 1024 \<le> \<bar>i\<bar> \<Longrightarrow> float_of_int i = Inl OverflowError"
  by (simp add: float_of_int_def double_overflow_ge)

lemma float_of_int_exact: "\<bar>i\<bar> < 2 ^ 53 \<Longrightarrow> float_of_int i = Inr (real_of_int i)"
proof -
  assume a: "\<bar>i\<bar> < 2 ^ 53"
  then have "int (nat \<bar>i\<bar>) < int (2 ^ 53)" by simp
  then have small: "nat \<bar>i\<bar> < 2 ^ 53" by linarith
  then have r: "round_double (nat \<bar>i\<bar>) = nat \<bar>i\<bar>" by (simp add: round_double_def)
  have "(2::nat) ^ 53 \<le> 2 ^ 1024" by (rule power_increasing) simp_all
  with small have fits: "\<not> 2 ^ 1024 \<le> nat \<bar>i\<bar>" by linarith
  have "nearest_double i = real_of_int i"
    unfolding nearest_double_def r by (simp add: abs_if)
  with fits show ?thesis
    unfolding float_of_int_def double_overflow_def r by simp
qed

lemma float_of_int_rounds: "float_of_int (2 ^ 53 + 1) = Inr (2 ^ 53)"
proof -
  have n: "nat \<bar>2 ^ 53 + 1 :: int\<bar> = 2 ^ 53 + 1" by simp
  have bl: "bit_length (2 ^ 53 + 1) = Suc 53"
    by (rule bit_length_eq) simp_all
  have r: "round_double (2 ^ 53 + 1) = 2 ^ 53"
    unfolding round_double_def bl Let_def by simp
  have "\<not> (2::nat) ^ 1024 \<le> 2 ^ 53" by simp
  with r n show ?thesis
    by (simp add: float_of_int_def double_overflow_def nearest_double_def)
qed

section \<open>Lookups\<close>

lemma query_get_None_iff: "query_get k s = None \<longleftrightarrow> k \<notin> set (map id_col s)"
  by (auto simp: query_get_def find_None_iff)

lemma query_get_SomeD: "query_get k s = Some e \<Longrightarrow> e \<in> set s \<and> id_col e = k"
  by (auto simp: query_get_def find_Some_iff)

lemma find_first_split:
  "find P xs = Some x \<Longrightarrow> \<exists>ys zs. xs = ys @ x # zs \<and> P x \<and> (\<forall>y \<in> set ys. \<not> P y)"
proof (induction xs)
  case Nil
  then show ?case by simp
next
  case (Cons a xs)
  show ?case
  proof (cases "P a")
    case True
    with Cons.prems have "a = x" by simp
    with True have "a # xs = [] @ x # xs \<and> P x \<and> (\<forall>y \<in> set []. \<not> P y)" by simp
    then show ?thesis by blast
  next
    case False
    with Cons obtain ys zs where "xs = ys @ x # zs" "P x" "\<forall>y \<in> set ys. \<not> P y" by auto
    with False have "a # xs = (a # ys) @ x # zs \<and> P x \<and> (\<forall>y \<in> set (a # ys). \<not> P y)"
      by simp
    then show ?thesis by blast
  qed
qed

section \<open>The two assignments of the update handler\<close>

lemma flag_step:
  "(if isinstance_bool (dict_get data ''notifiedAt5Min'')
    then and_then (getitem data ''notifiedAt5Min'')
           (\<lambda>v. Inr (e\<lparr> notified_at_5_min := py_bool v \<rparr>))
    else Inr e)
   = (Inr (e\<lparr> notified_at_5_min := patched_flag data e \<rparr>) :: py_error + QueueEntry)"
proof (cases "data ''notifiedAt5Min''")
  case None
  then show ?thesis
    by (simp add: dict_get_def isinstance_bool_def patched_flag_def)
next
  case (Some v)
  then show ?thesis
    by (cases v)
      (simp_all add: dict_get_def isinstance_bool_def patched_flag_def and_then_def
        getitem_def py_bool_def)
qed

lemma wait_step:
  "(if isinstance_int_float (dict_get data ''estimatedWaitMinutes'')
    then and_then (getitem data ''estimatedWaitMinutes'') (\<lambda>v.
         and_then (py_float rt v) (\<lambda>w. Inr (e\<lparr> estimated_wait_minutes := w \<rparr>)))
    else Inr e)
   = (if wait_overflows data then Inl OverflowError
      else Inr (e\<lparr> estimated_wait_minutes := patched_wait data e \<rparr>))"
proof (cases "data ''estimatedWaitMinutes''")
  case None
  then show ?thesis
    by (simp add: dict_get_def isinstance_int_float_def patched_wait_def wait_overflows_def)
next
  case (Some v)
  then show ?thesis
    by (cases v)
      (simp_all add: dict_get_def isinstance_int_float_def patched_wait_def and_then_def
        getitem_def py_float_def float_of_int_def wait_overflows_def)
qed

lemma patched_wait_flag [simp]:
  "patched_wait data (e\<lparr> notified_at_5_min := b \<rparr>) = patched_wait data e"
  by (simp add: patched_wait_def split: option.split json.split)

lemma update_queue_entry_found:
  assumes "query_get k s = Some e" and "\<not> wait_overflows data"
  shows "update_queue_entry rt k data s =
     Inr ((200, JObj (serialize_entry rt
              (e\<lparr> notified_at_5_min := patched_flag data e,
                  estimated_wait_minutes := patched_wait data e \<rparr>))),
          map (\<lambda>r. if id_col r = k
                    then e\<lparr> notified_at_5_min := patched_flag data e,
                            estimated_wait_minutes := patched_wait data e \<rparr>
                    else r) s)"
proof -
  from query_get_SomeD [OF assms(1)] have idk: "id_col e = k" by simp
  show ?thesis
    unfolding update_queue_entry_def flag_step wait_step
    using assms idk
    by (simp add: and_then_def json_response_ok_def json_response_def session_update_def)
qed

lemma update_queue_entry_overflow:
  assumes "query_get k s = Some e" and "wait_overflows data"
  shows "update_queue_entry rt k data s = Inl OverflowError"
  unfolding update_queue_entry_def flag_step wait_step
  using assms by (simp add: and_then_def)

text \<open>A \<^verbatim>\<open>PATCH\<close> whose \<^verbatim>\<open>estimatedWaitMinutes\<close> is the integer \<open>10 ^ 400\<close> raises,
  and the request leaves the table as it was.\<close>

lemma update_queue_entry_overflow_example:
  "update_queue_entry example_runtime ''q0'' [''estimatedWaitMinutes'' \<mapsto> JInt (10 ^ 400)]
       [example_entry ''q0'' 1 3]
     = Inl OverflowError \<and>
   handle example_runtime (Patch ''q0'' [''estimatedWaitMinutes'' \<mapsto> JInt (10 ^ 400)])
       [example_entry ''q0'' 1 3]
     = [example_entry ''q0'' 1 3]"
proof -
  have "double_overflow (10 ^ 400)" by (rule double_overflow_ge) simp
  then have over: "wait_overflows [''estimatedWaitMinutes'' \<mapsto> JInt (10 ^ 400)]"
    by (simp add: wait_overflows_def)
  have get: "query_get ''q0'' [example_entry ''q0'' 1 3] = Some (example_entry ''q0'' 1 3)"
    by (simp add: query_get_def example_entry_def)
  from update_queue_entry_overflow [OF get over, of example_runtime] show ?thesis
    by (simp add: handle_def)
qed

section \<open>Joining with a missing field\<close>

text \<open>
  Claim C5. A join whose payload lacks one of the required fields is answered with status
  400 and the body \<^verbatim>\<open>{"error": "<field>_required"}\<close>, where the field is the first of
  \<open>required\<close> (in its order) that the payload lacks; the table is returned unchanged.
\<close>

theorem join_queue_missing_field:
  assumes "\<exists>k \<in> set required. data k = None"
  shows "\<exists>ks k ks'. required = ks @ k # ks' \<and> (\<forall>j \<in> set ks. data j \<noteq> None) \<and> data k = None \<and>
           join_queue rt now data s
             = Inr ((400, JObj [(''error'', JStr (k @ ''_required''))]), s)"
proof -
  from assms have "find (\<lambda>k. data k = None) required \<noteq> None"
    by (auto simp: find_None_iff)
  then obtain k where k: "find (\<lambda>k. data k = None) required = Some k" by blast
  from find_first_split [OF k] obtain ks ks' where
    split: "required = ks @ k # ks'" "data k = None" "\<forall>j \<in> set ks. data j \<noteq> None"
    by blast
  from k have "join_queue rt now data s
      = Inr ((400, JObj [(''error'', JStr (k @ ''_required''))]), s)"
    by (simp add: join_queue_def json_response_def)
  with split show ?thesis by blast
qed

theorem join_queue_missing_field_witness:
  "(\<exists>k \<in> set required. ((example_payload ''q1'')(''hall'' := None)) k = None) \<and>
   (\<exists>ks k ks'. required = ks @ k # ks' \<and>
      (\<forall>j \<in> set ks. ((example_payload ''q1'')(''hall'' := None)) j \<noteq> None) \<and>
      ((example_payload ''q1'')(''hall'' := None)) k = None \<and>
      join_queue example_runtime 7 ((example_payload ''q1'')(''hall'' := None))
          [example_entry ''q0'' 1 3]
        = Inr ((400, JObj [(''error'', JStr (k @ ''_required''))]), [example_entry ''q0'' 1 3]))"
proof -
  have h: "\<exists>k \<in> set required. ((example_payload ''q1'')(''hall'' := None)) k = None"
    by (simp add: required_def)
  from h join_queue_missing_field [OF h] show ?thesis by (rule conjI)
qed

section \<open>Requests for a row that does not exist\<close>

text \<open>
  Claim C6. \<^verbatim>\<open>DELETE /queue/<entry_id>\<close> answers 404 with \<^verbatim>\<open>{"error": "not_found"}\<close>
  exactly when no row has that id, and then returns the table unchanged; the same holds of
  \<^verbatim>\<open>PATCH /queue/<entry_id>\<close>, whatever its payload.
\<close>

theorem not_found_iff_absent:
  "(fst (cancel_queue k s) = not_found \<longleftrightarrow> k \<notin> set (map id_col s)) \<and>
   (k \<notin> set (map id_col s) \<longrightarrow> cancel_queue k s = (not_found, s)) \<and>
   ((\<exists>s'. update_queue_entry rt k data s = Inr (not_found, s')) \<longleftrightarrow> k \<notin> set (map id_col s)) \<and>
   (k \<notin> set (map id_col s) \<longrightarrow> update_queue_entry rt k data s = Inr (not_found, s))"
proof (cases "query_get k s")
  case None
  then have absent: "k \<notin> set (map id_col s)" by (simp add: query_get_None_iff)
  from None have c: "cancel_queue k s = (not_found, s)"
    by (simp add: cancel_queue_def not_found_def json_response_def)
  from None have u: "update_queue_entry rt k data s = Inr (not_found, s)"
    by (simp add: update_queue_entry_def not_found_def json_response_def)
  from absent c u show ?thesis by simp
next
  case (Some e)
  then have present: "k \<in> set (map id_col s)"
    using query_get_None_iff [of k s] by simp
  from Some have c: "fst (fst (cancel_queue k s)) = 200"
    by (simp add: cancel_queue_def json_response_ok_def json_response_def Let_def)
  from c have c': "fst (cancel_queue k s) \<noteq> not_found"
    by (auto simp: not_found_def)
  have u': "\<not> (\<exists>s'. update_queue_entry rt k data s = Inr (not_found, s'))"
  proof (cases "wait_overflows data")
    case True
    from update_queue_entry_overflow [OF Some True] show ?thesis by simp
  next
    case False
    from update_queue_entry_found [OF Some False] show ?thesis
      by (simp add: not_found_def)
  qed
  from present c' u' show ?thesis by simp
qed

theorem not_found_iff_absent_witness:
  "''q9'' \<notin> set (map id_col [example_entry ''q0'' 1 3]) \<and>
   cancel_queue ''q9'' [example_entry ''q0'' 1 3] = (not_found, [example_entry ''q0'' 1 3]) \<and>
   update_queue_entry example_runtime ''q9'' [''notifiedAt5Min'' \<mapsto> JBool True]
       [example_entry ''q0'' 1 3]
     = Inr (not_found, [example_entry ''q0'' 1 3])"
  using not_found_iff_absent [of "''q9''" "[example_entry ''q0'' 1 3]" example_runtime
      "[''notifiedAt5Min'' \<mapsto> JBool True]"]
  by (simp add: example_entry_def)

section \<open>The frame of an update\<close>

text \<open>
  Claim C8, in the form the code satisfies. Take a row that exists and a \<^verbatim>\<open>PATCH\<close>
  payload whose \<^verbatim>\<open>estimatedWaitMinutes\<close>, if an int, is within the range of a double
  (beyond it \<^verbatim>\<open>float\<close> raises and the request fails). The handler answers 200 with the
  serialized updated row. The flag \<open>notified_at_5_min\<close> becomes the payload's
  \<^verbatim>\<open>notifiedAt5Min\<close> when that is a boolean and is kept otherwise; the wait becomes the
  \<^verbatim>\<open>float\<close> of the payload's \<^verbatim>\<open>estimatedWaitMinutes\<close> when that is an int, a float
  or a boolean (which \<^verbatim>\<open>isinstance(v, (int, float))\<close> accepts, \<^verbatim>\<open>True\<close> counting
  as 1) and is kept otherwise. The ten other attributes of the row are unchanged, and so
  is every row with another id.
\<close>

theorem update_queue_entry_frame:
  assumes "query_get k s = Some e"
    and "\<forall>i. data ''estimatedWaitMinutes'' = Some (JInt i) \<longrightarrow> \<not> double_overflow i"
  shows "\<exists>e'. update_queue_entry rt k data s
              = Inr ((200, JObj (serialize_entry rt e')),
                     map (\<lambda>r. if id_col r = k then e' else r) s) \<and>
          notified_at_5_min e' =
            (case data ''notifiedAt5Min'' of Some (JBool b) \<Rightarrow> b | _ \<Rightarrow> notified_at_5_min e) \<and>
          estimated_wait_minutes e' =
            (case data ''estimatedWaitMinutes'' of
               Some (JInt i) \<Rightarrow> nearest_double i
             | Some (JFloat x) \<Rightarrow> x
             | Some (JBool b) \<Rightarrow> (if b then 1 else 0)
             | _ \<Rightarrow> estimated_wait_minutes e) \<and>
          id_col e' = id_col e \<and> name e' = name e \<and> guests e' = guests e \<and>
          notification_method e' = notification_method e \<and> contact e' = contact e \<and>
          hall e' = hall e \<and> segment e' = segment e \<and> position e' = position e \<and>
          joined_at e' = joined_at e \<and> queue_date e' = queue_date e"
proof -
  let ?e' = "e\<lparr> notified_at_5_min := patched_flag data e,
                 estimated_wait_minutes := patched_wait data e \<rparr>"
  from assms(2) have fits: "\<not> wait_overflows data"
    by (simp add: wait_overflows_def split: option.split json.split)
  have "update_queue_entry rt k data s
          = Inr ((200, JObj (serialize_entry rt ?e')),
                 map (\<lambda>r. if id_col r = k then ?e' else r) s)"
    by (rule update_queue_entry_found [OF assms(1) fits])
  moreover have "notified_at_5_min ?e' =
      (case data ''notifiedAt5Min'' of Some (JBool b) \<Rightarrow> b | _ \<Rightarrow> notified_at_5_min e)"
    by (simp add: patched_flag_def)
  moreover have "estimated_wait_minutes ?e' =
      (case data ''estimatedWaitMinutes'' of
         Some (JInt i) \<Rightarrow> nearest_double i
       | Some (JFloat x) \<Rightarrow> x
       | Some (JBool b) \<Rightarrow> (if b then 1 else 0)
       | _ \<Rightarrow> estimated_wait_minutes e)"
    by (simp add: patched_wait_def)
  moreover have "id_col ?e' = id_col e \<and> name ?e' = name e \<and> guests ?e' = guests e \<and>
          notification_method ?e' = notification_method e \<and> contact ?e' = contact e \<and>
          hall ?e' = hall e \<and> segment ?e' = segment e \<and> position ?e' = position e \<and>
          joined_at ?e' = joined_at e \<and> queue_date ?e' = queue_date e"
    by simp
  ultimately show ?thesis by blast
qed

theorem update_queue_entry_frame_witness:
  "query_get ''q0'' [example_entry ''q0'' 1 3, example_entry ''q1'' 2 4]
     = Some (example_entry ''q0'' 1 3) \<and>
   \<not> double_overflow 45 \<and>
   (\<exists>e'. update_queue_entry example_runtime ''q0''
            [''notifiedAt5Min'' \<mapsto> JBool True, ''estimatedWaitMinutes'' \<mapsto> JInt 45]
            [example_entry ''q0'' 1 3, example_entry ''q1'' 2 4]
          = Inr ((200, JObj (serialize_entry example_runtime e')),
                 [e', example_entry ''q1'' 2 4]) \<and>
        notified_at_5_min e' = True \<and> estimated_wait_minutes e' = 45 \<and> position e' = 1)"
proof -
  let ?data = "[''notifiedAt5Min'' \<mapsto> JBool True, ''estimatedWaitMinutes'' \<mapsto> JInt 45]"
  have h: "query_get ''q0'' [example_entry ''q0'' 1 3, example_entry ''q1'' 2 4]
     = Some (example_entry ''q0'' 1 3)"
    by (simp add: query_get_def example_entry_def)
  have fits: "\<not> double_overflow 45"
    by (simp add: double_overflow_def round_double_def)
  then have h2: "\<forall>i. ?data ''estimatedWaitMinutes'' = Some (JInt i) \<longrightarrow> \<not> double_overflow i"
    by simp
  have near: "nearest_double 45 = 45"
    by (simp add: nearest_double_def round_double_def)
  from update_queue_entry_frame [where data = ?data and rt = example_runtime, OF h h2]
  obtain e' where e':
    "update_queue_entry example_runtime ''q0'' ?data
            [example_entry ''q0'' 1 3, example_entry ''q1'' 2 4]
          = Inr ((200, JObj (serialize_entry example_runtime e')),
                 map (\<lambda>r. if id_col r = ''q0'' then e' else r)
                   [example_entry ''q0'' 1 3, example_entry ''q1'' 2 4])"
    "notified_at_5_min e' = True"
    "estimated_wait_minutes e' = nearest_double 45"
    "position e' = position (example_entry ''q0'' 1 3)"
    by auto
  from e' near have c: "update_queue_entry example_runtime ''q0'' ?data
            [example_entry ''q0'' 1 3, example_entry ''q1'' 2 4]
          = Inr ((200, JObj (serialize_entry example_runtime e')),
                 [e', example_entry ''q1'' 2 4]) \<and>
        notified_at_5_min e' = True \<and> estimated_wait_minutes e' = 45 \<and> position e' = 1"
    by (simp add: example_entry_def)
  from h fits c show ?thesis by blast
qed

text \<open>
  The claim as stated lets the wait change only on an int or a float. A payload
  \<^verbatim>\<open>{"estimatedWaitMinutes": true}\<close> carries a boolean, and the wait of the row goes from
  60 to 1.
\<close>

theorem update_queue_entry_bool_counterexample:
  "update_queue_entry example_runtime ''q0'' [''estimatedWaitMinutes'' \<mapsto> JBool True]
       [example_entry ''q0'' 1 3]
     = Inr ((200, JObj (serialize_entry example_runtime
                 ((example_entry ''q0'' 1 3)\<lparr> estimated_wait_minutes := 1 \<rparr>))),
            [(example_entry ''q0'' 1 3)\<lparr> estimated_wait_minutes := 1 \<rparr>]) \<and>
   estimated_wait_minutes (example_entry ''q0'' 1 3) = 60"
  by (simp add: update_queue_entry_def query_get_def example_entry_def and_then_def
      dict_get_def getitem_def isinstance_bool_def isinstance_int_float_def py_float_def
      json_response_ok_def json_response_def session_update_def)

section \<open>Sorting by a comparison\<close>


lemma mset_insert_by: "mset (insert_by le x xs) = add_mset x (mset xs)"
  by (induction xs) auto

lemma mset_order_by: "mset (order_by le xs) = mset xs"
  unfolding order_by_def by (induction xs) (auto simp: mset_insert_by)

lemma set_insert_by: "set (insert_by le x xs) = insert x (set xs)"
  by (induction xs) auto

lemma sorted_insert_by:
  assumes total: "\<And>a b. le a b \<or> le b a" and trans: "\<And>a b c. le a b \<Longrightarrow> le b c \<Longrightarrow> le a c"
  shows "sorted_wrt le xs \<Longrightarrow> sorted_wrt le (insert_by le x xs)"
proof (induction xs)
  case Nil
  then show ?case by simp
next
  case (Cons y ys)
  show ?case
  proof (cases "le x y")
    case True
    with Cons.prems trans show ?thesis by auto
  next
    case False
    with total have "le y x" by blast
    with Cons False show ?thesis by (auto simp: set_insert_by)
  qed
qed

lemma sorted_order_by:
  assumes total: "\<And>a b. le a b \<or> le b a" and trans: "\<And>a b c. le a b \<Longrightarrow> le b c \<Longrightarrow> le a c"
  shows "sorted_wrt le (order_by le xs)"
  unfolding order_by_def
  by (induction xs) (auto intro: sorted_insert_by [OF total trans])

lemma list_order_total: "list_order a b \<or> list_order b a"
  unfolding list_order_def by auto

lemma list_order_trans: "list_order a b \<Longrightarrow> list_order b c \<Longrightarrow> list_order a c"
  unfolding list_order_def by auto

section \<open>Listing the queue\<close>

text \<open>
  Claim C7. With a non-empty \<^verbatim>\<open>queueDate\<close> filter, \<^verbatim>\<open>GET /queue\<close> answers with the
  serialization of exactly the rows whose \<open>queue_date\<close> is the filter (each as often as
  the table holds it). Of two rows of the listing, the earlier one has the later date; or
  the same date and the smaller hall; or the same date and hall and the smaller segment; or
  the same date, hall and segment and a position that is not greater. Without a filter, or
  with the empty one, it answers with all rows of the table, in that order.
\<close>

theorem list_queue_sorted:
  "(d \<noteq> [] \<longrightarrow>
      (\<exists>rows. list_queue rt (Some d) s
                = (200, JObj [(''entries'', JArr (map (\<lambda>e. JObj (serialize_entry rt e)) rows))]) \<and>
              mset rows = mset (filter (\<lambda>r. queue_date r = d) s) \<and>
              sorted_wrt
                (\<lambda>a b. queue_date b < queue_date a \<or>
                   (queue_date a = queue_date b \<and>
                     (hall a < hall b \<or>
                      (hall a = hall b \<and>
                        (segment a < segment b \<or>
                         (segment a = segment b \<and> position a \<le> position b))))))
                rows)) \<and>
   (\<forall>date. date = None \<or> date = Some [] \<longrightarrow>
      (\<exists>rows. list_queue rt date s
                = (200, JObj [(''entries'', JArr (map (\<lambda>e. JObj (serialize_entry rt e)) rows))]) \<and>
              mset rows = mset s \<and>
              sorted_wrt
                (\<lambda>a b. queue_date b < queue_date a \<or>
                   (queue_date a = queue_date b \<and>
                     (hall a < hall b \<or>
                      (hall a = hall b \<and>
                        (segment a < segment b \<or>
                         (segment a = segment b \<and> position a \<le> position b))))))
                rows))"
proof -
  let ?body = "\<lambda>rows. (200::nat, JObj [(''entries'', JArr (map (\<lambda>e. JObj (serialize_entry rt e)) rows))])"
  let ?ord = "(\<lambda>a b. queue_date b < queue_date a \<or>
                   (queue_date a = queue_date b \<and>
                     (hall a < hall b \<or>
                      (hall a = hall b \<and>
                        (segment a < segment b \<or>
                         (segment a = segment b \<and> position a \<le> position b))))))"
  have ord: "list_order = ?ord"
    by (intro ext) (simp add: list_order_def)
  have sorted: "sorted_wrt ?ord (order_by list_order q)" for q
    using sorted_order_by [of list_order q, OF list_order_total list_order_trans]
    unfolding ord [symmetric] .
  have some: "\<exists>rows. list_queue rt (Some d) s = ?body rows \<and>
              mset rows = mset (filter (\<lambda>r. queue_date r = d) s) \<and>
              sorted_wrt ?ord rows" if "d \<noteq> []"
  proof -
    let ?rows = "order_by list_order (filter (\<lambda>r. queue_date r = d) s)"
    from that have "list_queue rt (Some d) s = ?body ?rows"
      by (simp add: list_queue_def json_response_ok_def json_response_def)
    moreover have "mset ?rows = mset (filter (\<lambda>r. queue_date r = d) s)"
      by (rule mset_order_by)
    ultimately show ?thesis using sorted by blast
  qed
  have none: "\<exists>rows. list_queue rt date s = ?body rows \<and> mset rows = mset s \<and>
              sorted_wrt ?ord rows" if "date = None \<or> date = Some []" for date
  proof -
    from that have "list_queue rt date s = ?body (order_by list_order s)"
      by (auto simp add: list_queue_def json_response_ok_def json_response_def)
    moreover have "mset (order_by list_order s) = mset s"
      by (rule mset_order_by)
    ultimately show ?thesis using sorted by blast
  qed
  from some none show ?thesis by blast
qed

theorem list_queue_sorted_witness:
  "''2026-01-31'' \<noteq> [] \<and>
   (\<exists>rows. list_queue example_runtime (Some ''2026-01-31'')
               [example_entry ''q1'' 2 4, example_entry ''q0'' 1 3]
             = (200, JObj [(''entries'',
                   JArr (map (\<lambda>e. JObj (serialize_entry example_runtime e)) rows))]) \<and>
           mset rows = mset (filter (\<lambda>r. queue_date r = ''2026-01-31'')
                               [example_entry ''q1'' 2 4, example_entry ''q0'' 1 3]) \<and>
           sorted_wrt
             (\<lambda>a b. queue_date b < queue_date a \<or>
                   (queue_date a = queue_date b \<and>
                     (hall a < hall b \<or>
                      (hall a = hall b \<and>
                        (segment a < segment b \<or>
                         (segment a = segment b \<and> position a \<le> position b))))))
             rows) \<and>
   (\<exists>rows. list_queue example_runtime None
               [example_entry ''q1'' 2 4, example_entry ''q0'' 1 3]
             = (200, JObj [(''entries'',
                   JArr (map (\<lambda>e. JObj (serialize_entry example_runtime e)) rows))]) \<and>
           mset rows = mset [example_entry ''q1'' 2 4, example_entry ''q0'' 1 3] \<and>
           sorted_wrt
             (\<lambda>a b. queue_date b < queue_date a \<or>
                   (queue_date a = queue_date b \<and>
                     (hall a < hall b \<or>
                      (hall a = hall b \<and>
                        (segment a < segment b \<or>
                         (segment a = segment b \<and> position a \<le> position b))))))
             rows)"
proof -
  have h: "''2026-01-31'' \<noteq> []" by simp
  note t = list_queue_sorted [of "''2026-01-31''" example_runtime
      "[example_entry ''q1'' 2 4, example_entry ''q0'' 1 3]"]
  from t h have a: "\<exists>rows. list_queue example_runtime (Some ''2026-01-31'')
               [example_entry ''q1'' 2 4, example_entry ''q0'' 1 3]
             = (200, JObj [(''entries'',
                   JArr (map (\<lambda>e. JObj (serialize_entry example_runtime e)) rows))]) \<and>
           mset rows = mset (filter (\<lambda>r. queue_date r = ''2026-01-31'')
                               [example_entry ''q1'' 2 4, example_entry ''q0'' 1 3]) \<and>
           sorted_wrt
             (\<lambda>a b. queue_date b < queue_date a \<or>
                   (queue_date a = queue_date b \<and>
                     (hall a < hall b \<or>
                      (hall a = hall b \<and>
                        (segment a < segment b \<or>
                         (segment a = segment b \<and> position a \<le> position b))))))
             rows"
    by blast
  from t have b: "\<exists>rows. list_queue example_runtime None
               [example_entry ''q1'' 2 4, example_entry ''q0'' 1 3]
             = (200, JObj [(''entries'',
                   JArr (map (\<lambda>e. JObj (serialize_entry example_runtime e)) rows))]) \<and>
           mset rows = mset [example_entry ''q1'' 2 4, example_entry ''q0'' 1 3] \<and>
           sorted_wrt
             (\<lambda>a b. queue_date b < queue_date a \<or>
                   (queue_date a = queue_date b \<and>
                     (hall a < hall b \<or>
                      (hall a = hall b \<and>
                        (segment a < segment b \<or>
                         (segment a = segment b \<and> position a \<le> position b))))))
             rows"
    by blast
  from h a b show ?thesis by (intro conjI)
qed

text \<open>The listing of a table of three rows, two of them of the date asked for: the row of
  the other date is left out, and the row at position 1 comes first though the table
  holds it last.\<close>

lemma list_queue_example:
  "list_queue example_runtime (Some ''2026-01-31'')
     [example_entry ''q1'' 2 4,
      (example_entry ''q2'' 1 5)\<lparr>queue_date := ''2026-02-01''\<rparr>,
      example_entry ''q0'' 1 3]
   = (200, JObj [(''entries'',
        JArr [JObj (serialize_entry example_runtime (example_entry ''q0'' 1 3)),
              JObj (serialize_entry example_runtime (example_entry ''q1'' 2 4))])])"
  by (simp add: list_queue_def order_by_def list_order_def example_entry_def
      json_response_ok_def json_response_def)

text \<open>Without a filter the three rows are listed, the row of the later date first.\<close>

lemma list_queue_all_example:
  "list_queue example_runtime None
     [example_entry ''q1'' 2 4,
      (example_entry ''q2'' 1 5)\<lparr>queue_date := ''2026-02-01''\<rparr>,
      example_entry ''q0'' 1 3]
   = (200, JObj [(''entries'',
        JArr [JObj (serialize_entry example_runtime
                 ((example_entry ''q2'' 1 5)\<lparr>queue_date := ''2026-02-01''\<rparr>)),
              JObj (serialize_entry example_runtime (example_entry ''q0'' 1 3)),
              JObj (serialize_entry example_runtime (example_entry ''q1'' 2 4))])])"
  by (simp add: list_queue_def order_by_def list_order_def example_entry_def
      json_response_ok_def json_response_def)

section \<open>A successful join\<close>

lemma join_queue_created:
  assumes "joins_group rt data k d g h sg"
  shows "\<exists>e. join_queue rt now data s
               = Inr ((201, JObj (serialize_entry rt e)), session_merge e s) \<and>
             id_col e = k \<and> in_group d g h sg e \<and>
             position e = next_position d g h sg s \<and>
             estimated_wait_minutes e = real_of_int (position e * 60) \<and>
             joined_at e = now"
proof -
  from assms obtain vi vn vg vm vc vh vs vd where v:
    "data ''id'' = Some vi" "data ''name'' = Some vn" "data ''guests'' = Some vg"
    "data ''notificationMethod'' = Some vm" "data ''contact'' = Some vc"
    "data ''hall'' = Some vh" "data ''segment'' = Some vs" "data ''queueDate'' = Some vd"
    "py_str rt vi = k" "py_int rt vg = Inr g" "py_str rt vh = h" "py_str rt vs = sg"
    "py_str rt vd = d"
    unfolding joins_group_def by auto
  have no_missing: "find (\<lambda>k. data k = None) required = None"
    using v by (simp add: required_def)
  let ?e = "\<lparr> id_col = k, name = py_str rt vn, guests = g,
               notification_method = py_str rt vm, contact = py_str rt vc,
               hall = h, segment = sg, position = next_position d g h sg s,
               estimated_wait_minutes = real_of_int (next_position d g h sg s * 60),
               joined_at = now, queue_date = d,
               notified_at_5_min =
                 py_bool (dict_get_default data ''notifiedAt5Min'' (JBool False)) \<rparr>"
  have "join_queue rt now data s
          = Inr ((201, JObj (serialize_entry rt ?e)), session_merge ?e s)"
    unfolding join_queue_def no_missing
    using v by (simp add: and_then_def getitem_def Let_def json_response_def)
  moreover have "id_col ?e = k \<and> in_group d g h sg ?e \<and>
             position ?e = next_position d g h sg s \<and>
             estimated_wait_minutes ?e = real_of_int (position ?e * 60) \<and>
             joined_at ?e = now"
    by (simp add: in_group_def)
  ultimately show ?thesis by blast
qed

lemma example_payload_joins:
  "joins_group example_runtime (example_payload k) k ''2026-01-31'' 2 ''AC'' ''front''"
  by (simp add: joins_group_def example_payload_def py_str_def py_int_def)

section \<open>Merging a row into the table\<close>

lemma well_formed_unique:
  "well_formed s \<Longrightarrow> a \<in> set s \<Longrightarrow> b \<in> set s \<Longrightarrow> id_col a = id_col b \<Longrightarrow> a = b"
  unfolding well_formed_def by (auto simp: distinct_map dest: inj_onD)

lemma map_id_col_merge_present:
  "id_col e \<in> set (map id_col s) \<Longrightarrow> map id_col (session_merge e s) = map id_col s"
  unfolding session_merge_def by (induction s) auto

lemma well_formed_merge: "well_formed s \<Longrightarrow> well_formed (session_merge e s)"
proof (cases "id_col e \<in> set (map id_col s)")
  case True
  assume "well_formed s"
  with map_id_col_merge_present [OF True] show ?thesis by (simp add: well_formed_def)
next
  case False
  assume "well_formed s"
  with False show ?thesis by (simp add: well_formed_def session_merge_def)
qed

lemma find_replaced:
  "id_col e \<in> id_col ` set s \<Longrightarrow>
     find (\<lambda>r. id_col r = id_col e) (map (\<lambda>r. if id_col r = id_col e then e else r) s) = Some e"
  by (induction s) auto

lemma find_not_replaced:
  "k \<noteq> id_col e \<Longrightarrow>
     find (\<lambda>r. id_col r = k) (map (\<lambda>r. if id_col r = id_col e then e else r) s)
       = find (\<lambda>r. id_col r = k) s"
  by (induction s) auto

lemma find_snoc_absent:
  "find P xs = None \<Longrightarrow> find P (xs @ [x]) = (if P x then Some x else None)"
  by (induction xs) (auto split: if_splits)

lemma find_snoc_other:
  "\<not> P x \<Longrightarrow> find P (xs @ [x]) = find P xs"
  by (induction xs) auto

lemma query_get_merge:
  "query_get k (session_merge e s) = (if k = id_col e then Some e else query_get k s)"
proof (cases "id_col e \<in> id_col ` set s")
  case True
  then have "session_merge e s = map (\<lambda>r. if id_col r = id_col e then e else r) s"
    by (simp add: session_merge_def)
  with True show ?thesis
    by (simp add: query_get_def find_replaced find_not_replaced)
next
  case False
  then have none: "find (\<lambda>r. id_col r = id_col e) s = None"
    by (auto simp: find_None_iff image_iff)
  from False have "session_merge e s = s @ [e]"
    by (simp add: session_merge_def)
  then show ?thesis
    using none by (simp add: query_get_def find_snoc_absent find_snoc_other)
qed

lemma group_merge_new:
  assumes "G e" and "\<forall>r \<in> set s. G r \<longrightarrow> id_col r \<noteq> id_col e"
  shows "set (filter G (session_merge e s)) = insert e (set (filter G s))"
  using assms unfolding session_merge_def by auto

lemma group_length_ids:
  "well_formed s \<Longrightarrow> length (filter G s) = card (id_col ` set (filter G s))"
proof -
  assume "well_formed s"
  then have "distinct (map id_col (filter G s))"
    unfolding well_formed_def by (rule distinct_map_filter)
  from distinct_card [OF this] show ?thesis by simp
qed

lemma group_merge_same:
  assumes wf: "well_formed s" and e0: "query_get k s = Some e0" and k: "id_col e = k"
    and G: "G e0 \<longleftrightarrow> G e"
  shows "length (filter G (session_merge e s)) = length (filter G s)"
proof -
  from query_get_SomeD [OF e0] have mem: "e0 \<in> set s" and id0: "id_col e0 = k" by simp_all
  then have present: "id_col e \<in> set (map id_col s)" using k by force
  have same: "G (if id_col r = id_col e then e else r) \<longleftrightarrow> G r" if "r \<in> set s" for r
  proof (cases "id_col r = id_col e")
    case True
    with k id0 have "id_col r = id_col e0" by simp
    from well_formed_unique [OF wf that mem this] G True show ?thesis by simp
  next
    case False
    then show ?thesis by simp
  qed
  have "filter G (map (\<lambda>r. if id_col r = id_col e then e else r) s)
      = map (\<lambda>r. if id_col r = id_col e then e else r) (filter G s)"
    unfolding filter_map comp_def using same by (simp cong: filter_cong)
  with present show ?thesis by (simp add: session_merge_def)
qed

section \<open>Joining again under an id that exists\<close>

text \<open>
  Claim C10, in the form the code satisfies. Let the table hold a row with id \<open>k\<close> in a
  group of \<open>N\<close> rows, and let a join payload carry all required fields, with values that
  convert to the same id and to the group of that row (so \<^verbatim>\<open>int(data["guests"])\<close> does
  not raise). The join does not fail: it answers 201 with the serialized new entry, which
  takes the place of the old row (the table keeps its length and its ids, so no second
  entry appears). Its position is the number of rows of the group before the join, the old
  row included, plus one, that is \<open>N + 1\<close>, while the group still has \<open>N\<close> rows.
\<close>

theorem rejoin_existing_id:
  assumes wf: "well_formed s"
    and e0: "query_get k s = Some e0"
    and grp: "in_group d g h sg e0"
    and pl: "joins_group rt data k d g h sg"
  shows "\<exists>e. join_queue rt now data s
               = Inr ((201, JObj (serialize_entry rt e)),
                      map (\<lambda>r. if id_col r = k then e else r) s) \<and>
             id_col e = k \<and> in_group d g h sg e \<and>
             position e = int (length (filter (in_group d g h sg) s)) + 1 \<and>
             length (map (\<lambda>r. if id_col r = k then e else r) s) = length s \<and>
             map id_col (map (\<lambda>r. if id_col r = k then e else r) s) = map id_col s \<and>
             length (filter (in_group d g h sg) (map (\<lambda>r. if id_col r = k then e else r) s))
               = length (filter (in_group d g h sg) s)"
proof -
  from join_queue_created [OF pl, of now s] obtain e where e:
    "join_queue rt now data s = Inr ((201, JObj (serialize_entry rt e)), session_merge e s)"
    "id_col e = k" "in_group d g h sg e" "position e = next_position d g h sg s"
    by blast
  from query_get_SomeD [OF e0] have "k \<in> set (map id_col s)" by force
  with e(2) have present: "id_col e \<in> set (map id_col s)" by simp
  then have merged: "session_merge e s = map (\<lambda>r. if id_col r = k then e else r) s"
    using e(2) by (simp add: session_merge_def)
  have ids: "map id_col (map (\<lambda>r. if id_col r = k then e else r) s) = map id_col s"
    using map_id_col_merge_present [OF present] merged by simp
  have count: "length (filter (in_group d g h sg) (map (\<lambda>r. if id_col r = k then e else r) s))
               = length (filter (in_group d g h sg) s)"
    using group_merge_same [OF wf e0 e(2), of "in_group d g h sg"] grp e(3) merged by simp
  from e merged ids count show ?thesis
    by (auto simp: next_position_def)
qed

theorem rejoin_existing_id_witness:
  "well_formed [example_entry ''q0'' 1 3, example_entry ''q1'' 2 4] \<and>
   query_get ''q0'' [example_entry ''q0'' 1 3, example_entry ''q1'' 2 4]
     = Some (example_entry ''q0'' 1 3) \<and>
   in_group ''2026-01-31'' 2 ''AC'' ''front'' (example_entry ''q0'' 1 3) \<and>
   joins_group example_runtime (example_payload ''q0'') ''q0'' ''2026-01-31'' 2 ''AC'' ''front'' \<and>
   (\<exists>e. join_queue example_runtime 9 (example_payload ''q0'')
            [example_entry ''q0'' 1 3, example_entry ''q1'' 2 4]
          = Inr ((201, JObj (serialize_entry example_runtime e)),
                 [e, example_entry ''q1'' 2 4]) \<and>
        id_col e = ''q0'' \<and> position e = 3)"
proof -
  let ?s = "[example_entry ''q0'' 1 3, example_entry ''q1'' 2 4]"
  have h1: "well_formed ?s" by (simp add: well_formed_def example_entry_def)
  have h2: "query_get ''q0'' ?s = Some (example_entry ''q0'' 1 3)"
    by (simp add: query_get_def example_entry_def)
  have h3: "in_group ''2026-01-31'' 2 ''AC'' ''front'' (example_entry ''q0'' 1 3)"
    by (simp add: in_group_def example_entry_def)
  have h4: "joins_group example_runtime (example_payload ''q0'') ''q0''
      ''2026-01-31'' 2 ''AC'' ''front''"
    by (rule example_payload_joins)
  from rejoin_existing_id [OF h1 h2 h3 h4, of 9] obtain e where e:
    "join_queue example_runtime 9 (example_payload ''q0'') ?s
       = Inr ((201, JObj (serialize_entry example_runtime e)),
              map (\<lambda>r. if id_col r = ''q0'' then e else r) ?s)"
    "id_col e = ''q0''"
    "position e = int (length (filter (in_group ''2026-01-31'' 2 ''AC'' ''front'') ?s)) + 1"
    by blast
  from e have "join_queue example_runtime 9 (example_payload ''q0'') ?s
          = Inr ((201, JObj (serialize_entry example_runtime e)),
                 [e, example_entry ''q1'' 2 4]) \<and>
        id_col e = ''q0'' \<and> position e = 3"
    by (simp add: example_entry_def in_group_def)
  with h1 h2 h3 h4 show ?thesis by blast
qed

text \<open>
  The presence of the required fields is not enough. The table holds \<^verbatim>\<open>q0\<close> and
  \<^verbatim>\<open>q1\<close> in one group of two rows. A join under the id \<^verbatim>\<open>q0\<close> with all required
  fields and \<^verbatim>\<open>guests\<close> 4 is counted in the group of parties of four, which is empty:
  the new row gets position 1, not 3, and the old group is left with one row. With
  \<^verbatim>\<open>guests\<close> \<^verbatim>\<open>null\<close> the field is present, \<^verbatim>\<open>int\<close> raises \<^verbatim>\<open>TypeError\<close>, and the
  join fails.
\<close>

theorem rejoin_other_group_counterexample:
  "well_formed [example_entry ''q0'' 1 3, example_entry ''q1'' 2 4] \<and>
   query_get ''q0'' [example_entry ''q0'' 1 3, example_entry ''q1'' 2 4]
     = Some (example_entry ''q0'' 1 3) \<and>
   length (filter (in_group ''2026-01-31'' 2 ''AC'' ''front'')
             [example_entry ''q0'' 1 3, example_entry ''q1'' 2 4]) = Suc (Suc 0) \<and>
   find (\<lambda>f. ((example_payload ''q0'')(''guests'' \<mapsto> JInt 4)) f = None) required = None \<and>
   join_queue example_runtime 9 ((example_payload ''q0'')(''guests'' \<mapsto> JInt 4))
       [example_entry ''q0'' 1 3, example_entry ''q1'' 2 4]
     = Inr ((201, JObj (serialize_entry example_runtime
                          ((example_entry ''q0'' 1 9)\<lparr>guests := 4\<rparr>))),
            [(example_entry ''q0'' 1 9)\<lparr>guests := 4\<rparr>, example_entry ''q1'' 2 4]) \<and>
   position ((example_entry ''q0'' 1 9)\<lparr>guests := 4\<rparr>) = 1 \<and>
   length (filter (in_group ''2026-01-31'' 2 ''AC'' ''front'')
             [(example_entry ''q0'' 1 9)\<lparr>guests := 4\<rparr>, example_entry ''q1'' 2 4]) = Suc 0 \<and>
   find (\<lambda>f. ((example_payload ''q0'')(''guests'' \<mapsto> JNull)) f = None) required = None \<and>
   join_queue example_runtime 9 ((example_payload ''q0'')(''guests'' \<mapsto> JNull))
       [example_entry ''q0'' 1 3, example_entry ''q1'' 2 4]
     = Inl TypeError"
proof -
  let ?s = "[example_entry ''q0'' 1 3, example_entry ''q1'' 2 4]"
  let ?four = "(example_payload ''q0'')(''guests'' \<mapsto> JInt 4)"
  let ?null = "(example_payload ''q0'')(''guests'' \<mapsto> JNull)"
  let ?e = "(example_entry ''q0'' 1 9)\<lparr>guests := 4\<rparr>"
  have wf: "well_formed ?s" by (simp add: well_formed_def example_entry_def)
  have get: "query_get ''q0'' ?s = Some (example_entry ''q0'' 1 3)"
    by (simp add: query_get_def example_entry_def)
  have before: "length (filter (in_group ''2026-01-31'' 2 ''AC'' ''front'') ?s) = Suc (Suc 0)"
    by (simp add: in_group_def example_entry_def)
  have present4: "find (\<lambda>f. ?four f = None) required = None"
    by (simp add: required_def example_payload_def)
  have join4: "join_queue example_runtime 9 ?four ?s
      = Inr ((201, JObj (serialize_entry example_runtime ?e)), [?e, example_entry ''q1'' 2 4])"
    unfolding join_queue_def present4
    by (simp add: example_payload_def example_entry_def example_runtime_def and_then_def
        getitem_def py_int_def py_str_def py_bool_def dict_get_default_def json_response_def
        next_position_def in_group_def session_merge_def Let_def)
  have pos: "position ?e = 1" by (simp add: example_entry_def)
  have after: "length (filter (in_group ''2026-01-31'' 2 ''AC'' ''front'')
                 [?e, example_entry ''q1'' 2 4]) = Suc 0"
    by (simp add: in_group_def example_entry_def)
  have present0: "find (\<lambda>f. ?null f = None) required = None"
    by (simp add: required_def example_payload_def)
  have join0: "join_queue example_runtime 9 ?null ?s = Inl TypeError"
    unfolding join_queue_def present0
    by (simp add: example_payload_def and_then_def getitem_def py_int_def)
  from wf get before present4 join4 pos after present0 join0 show ?thesis
    by (intro conjI)
qed

section \<open>A batch of joins into an empty group\<close>

lemma run_snoc: "run rt (rqs @ [rq]) s = handle rt rq (run rt rqs s)"
  by (simp add: run_def)

lemma join_requests_take_Suc:
  "m < length js \<Longrightarrow>
     join_requests (take (Suc m) js)
       = join_requests (take m js) @ [Join (fst (js ! m)) (snd (js ! m))]"
  by (simp add: join_requests_def take_Suc_conv_app_nth case_prod_beta)

lemma handle_join_ok:
  "join_queue rt now data s = Inr (resp, s') \<Longrightarrow> handle rt (Join now data) s = s'"
  by (simp add: handle_def)

lemma nth_notin_take:
  assumes "distinct ks" and "m < length ks"
  shows "ks ! m \<notin> set (take m ks)"
proof
  assume "ks ! m \<in> set (take m ks)"
  then obtain j where j: "j < length (take m ks)" "take m ks ! j = ks ! m"
    by (auto simp: in_set_conv_nth)
  then have "j < m" "ks ! j = ks ! m" by simp_all
  with assms show False by (simp add: nth_eq_iff_index_eq)
qed

lemma joins_state:
  assumes wf: "well_formed s"
    and empty: "filter (in_group d g h sg) s = []"
    and pl: "\<forall>i < length js. joins_group rt (snd (js ! i)) (ks ! i) d g h sg"
    and len: "length ks = length js"
    and dist: "distinct ks"
  shows "m \<le> length js \<Longrightarrow>
         well_formed (run rt (join_requests (take m js)) s) \<and>
         id_col ` set (filter (in_group d g h sg) (run rt (join_requests (take m js)) s))
           = set (take m ks)"
proof (induction m)
  case 0
  with wf empty show ?case by (simp add: join_requests_def run_def)
next
  case (Suc m)
  let ?G = "in_group d g h sg"
  let ?S = "run rt (join_requests (take m js)) s"
  from Suc have m: "m < length js" and wfS: "well_formed ?S"
    and ids: "id_col ` set (filter ?G ?S) = set (take m ks)" by simp_all
  from pl m have "joins_group rt (snd (js ! m)) (ks ! m) d g h sg" by simp
  from join_queue_created [OF this, of "fst (js ! m)" ?S] obtain e where e:
    "join_queue rt (fst (js ! m)) (snd (js ! m)) ?S
       = Inr ((201, JObj (serialize_entry rt e)), session_merge e ?S)"
    "id_col e = ks ! m" "?G e"
    by blast
  have next_state: "run rt (join_requests (take (Suc m) js)) s = session_merge e ?S"
    using handle_join_ok [OF e(1)] by (simp add: join_requests_take_Suc [OF m] run_snoc)
  from nth_notin_take [OF dist] m len have fresh: "ks ! m \<notin> set (take m ks)" by simp
  have "\<forall>r \<in> set ?S. ?G r \<longrightarrow> id_col r \<noteq> id_col e"
  proof (intro ballI impI)
    fix r assume "r \<in> set ?S" "?G r"
    then have "id_col r \<in> id_col ` set (filter ?G ?S)" by simp
    with ids fresh e(2) show "id_col r \<noteq> id_col e" by auto
  qed
  from group_merge_new [OF e(3) this]
  have "id_col ` set (filter ?G (session_merge e ?S)) = insert (ks ! m) (set (take m ks))"
    using ids e(2) by simp
  also have "\<dots> = set (take (Suc m) ks)"
    using m len by (simp add: take_Suc_conv_app_nth)
  finally show ?case
    using well_formed_merge [OF wfS, of e] next_state by simp
qed

lemma joins_count:
  assumes wf: "well_formed s"
    and empty: "filter (in_group d g h sg) s = []"
    and pl: "\<forall>i < length js. joins_group rt (snd (js ! i)) (ks ! i) d g h sg"
    and len: "length ks = length js"
    and dist: "distinct ks"
    and m: "m \<le> length js"
  shows "length (filter (in_group d g h sg) (run rt (join_requests (take m js)) s)) = m"
proof -
  from joins_state [OF wf empty pl len dist m]
  have wfS: "well_formed (run rt (join_requests (take m js)) s)"
    and ids: "id_col ` set (filter (in_group d g h sg) (run rt (join_requests (take m js)) s))
           = set (take m ks)" by simp_all
  from dist have "distinct (take m ks)" by simp
  then have "card (set (take m ks)) = length (take m ks)" by (rule distinct_card)
  with group_length_ids [OF wfS, of "in_group d g h sg"] ids m len show ?thesis by simp
qed

text \<open>
  Claim C3. Let \<open>N\<close> payloads with pairwise distinct ids \<open>ks\<close>, all of the group
  \<open>(d, g, h, sg)\<close>, be joined one after the other into a table whose group is empty. The
  \<open>i\<close>-th join (counted from 0) answers 201 with the serialized entry it created, whose
  position is \<open>i + 1\<close>; after the last join that entry is still the row of its id, and the
  group has \<open>N\<close> rows.
\<close>

theorem joins_assign_positions:
  assumes wf: "well_formed s"
    and empty: "filter (in_group d g h sg) s = []"
    and pl: "\<forall>i < length js. joins_group rt (snd (js ! i)) (ks ! i) d g h sg"
    and len: "length ks = length js"
    and dist: "distinct ks"
    and i: "i < length js"
  shows "\<exists>e. join_queue rt (fst (js ! i)) (snd (js ! i)) (run rt (join_requests (take i js)) s)
               = Inr ((201, JObj (serialize_entry rt e)),
                      run rt (join_requests (take (Suc i) js)) s) \<and>
             id_col e = ks ! i \<and> in_group d g h sg e \<and>
             position e = int i + 1 \<and> joined_at e = fst (js ! i) \<and>
             query_get (ks ! i) (run rt (join_requests js) s) = Some e \<and>
             length (filter (in_group d g h sg) (run rt (join_requests js) s)) = length js"
proof -
  let ?G = "in_group d g h sg"
  let ?S = "\<lambda>m. run rt (join_requests (take m js)) s"
  note count = joins_count [OF wf empty pl len dist]
  from pl i have "joins_group rt (snd (js ! i)) (ks ! i) d g h sg" by simp
  from join_queue_created [OF this, of "fst (js ! i)" "?S i"] obtain e where e:
    "join_queue rt (fst (js ! i)) (snd (js ! i)) (?S i)
       = Inr ((201, JObj (serialize_entry rt e)), session_merge e (?S i))"
    "id_col e = ks ! i" "?G e" "position e = next_position d g h sg (?S i)"
    "joined_at e = fst (js ! i)"
    by blast
  have step: "?S (Suc i) = session_merge e (?S i)"
    using handle_join_ok [OF e(1)] by (simp add: join_requests_take_Suc [OF i] run_snoc)
  from count [of i] i have pos: "position e = int i + 1"
    using e(4) by (simp add: next_position_def)
  have kept: "Suc i \<le> m \<Longrightarrow> m \<le> length js \<Longrightarrow> query_get (ks ! i) (?S m) = Some e" for m
  proof (induction m)
    case 0
    then show ?case by simp
  next
    case (Suc m)
    show ?case
    proof (cases "m = i")
      case True
      with step e(2) show ?thesis by (simp add: query_get_merge)
    next
      case False
      with Suc.prems have im: "i < m" and m: "m < length js" by simp_all
      with Suc.IH have IH: "query_get (ks ! i) (?S m) = Some e" by simp
      from pl m have "joins_group rt (snd (js ! m)) (ks ! m) d g h sg" by simp
      from join_queue_created [OF this, of "fst (js ! m)" "?S m"] obtain e' where e':
        "join_queue rt (fst (js ! m)) (snd (js ! m)) (?S m)
           = Inr ((201, JObj (serialize_entry rt e')), session_merge e' (?S m))"
        "id_col e' = ks ! m"
        by blast
      have "?S (Suc m) = session_merge e' (?S m)"
        using handle_join_ok [OF e'(1)] by (simp add: join_requests_take_Suc [OF m] run_snoc)
      moreover from dist im m len have "ks ! i \<noteq> ks ! m"
        by (simp add: nth_eq_iff_index_eq)
      ultimately show ?thesis using IH e'(2) by (simp add: query_get_merge)
    qed
  qed
  from kept [of "length js"] i have final: "query_get (ks ! i) (run rt (join_requests js) s) = Some e"
    by simp
  from count [of "length js"]
  have total: "length (filter ?G (run rt (join_requests js) s)) = length js" by simp
  from e(1) step e(2,3,5) pos final total show ?thesis by auto
qed

theorem joins_assign_positions_witness:
  "well_formed [] \<and>
   filter (in_group ''2026-01-31'' 2 ''AC'' ''front'') [] = [] \<and>
   joins_group example_runtime (example_payload ''q0'') ''q0'' ''2026-01-31'' 2 ''AC'' ''front'' \<and>
   joins_group example_runtime (example_payload ''q1'') ''q1'' ''2026-01-31'' 2 ''AC'' ''front'' \<and>
   length [''q0'', ''q1''] = length [(5::nat, example_payload ''q0''), (6, example_payload ''q1'')] \<and>
   distinct [''q0'', ''q1''] \<and>
   Suc 0 < length [(5::nat, example_payload ''q0''), (6, example_payload ''q1'')] \<and>
   (\<exists>e. join_queue example_runtime 6 (example_payload ''q1'')
            (run example_runtime (join_requests [(5, example_payload ''q0'')]) [])
          = Inr ((201, JObj (serialize_entry example_runtime e)),
                 run example_runtime
                   (join_requests [(5, example_payload ''q0''), (6, example_payload ''q1'')]) []) \<and>
        id_col e = ''q1'' \<and> in_group ''2026-01-31'' 2 ''AC'' ''front'' e \<and>
        position e = 2 \<and> joined_at e = 6 \<and>
        query_get ''q1'' (run example_runtime
            (join_requests [(5, example_payload ''q0''), (6, example_payload ''q1'')]) []) = Some e \<and>
        length (filter (in_group ''2026-01-31'' 2 ''AC'' ''front'')
          (run example_runtime
            (join_requests [(5, example_payload ''q0''), (6, example_payload ''q1'')]) []))
          = length [(5::nat, example_payload ''q0''), (6, example_payload ''q1'')])"
proof -
  let ?js = "[(5::nat, example_payload ''q0''), (6, example_payload ''q1'')]"
  let ?ks = "[''q0'', ''q1'']"
  have h1: "well_formed []" by (simp add: well_formed_def)
  have h2: "filter (in_group ''2026-01-31'' 2 ''AC'' ''front'') [] = []" by simp
  have h3: "\<forall>i < length ?js.
      joins_group example_runtime (snd (?js ! i)) (?ks ! i) ''2026-01-31'' 2 ''AC'' ''front''"
    by (simp add: less_Suc_eq example_payload_joins)
  have h4: "length ?ks = length ?js" by simp
  have h5: "distinct ?ks" by simp
  have h6: "Suc 0 < length ?js" by simp
  have t1: "take (Suc 0) ?js = [(5, example_payload ''q0'')]" by simp
  have t2: "take (Suc (Suc 0)) ?js = ?js" by simp
  have n1: "fst (?js ! Suc 0) = 6" "snd (?js ! Suc 0) = example_payload ''q1''"
    "?ks ! Suc 0 = ''q1''" "int (Suc 0) + 1 = 2"
    by simp_all
  have c: "\<exists>e. join_queue example_runtime 6 (example_payload ''q1'')
            (run example_runtime (join_requests [(5, example_payload ''q0'')]) [])
          = Inr ((201, JObj (serialize_entry example_runtime e)),
                 run example_runtime (join_requests ?js) []) \<and>
        id_col e = ''q1'' \<and> in_group ''2026-01-31'' 2 ''AC'' ''front'' e \<and>
        position e = 2 \<and> joined_at e = 6 \<and>
        query_get ''q1'' (run example_runtime (join_requests ?js) []) = Some e \<and>
        length (filter (in_group ''2026-01-31'' 2 ''AC'' ''front'')
          (run example_runtime (join_requests ?js) [])) = length ?js"
    using joins_assign_positions [OF h1 h2 h3 h4 h5 h6] unfolding t1 t2 n1 .
  note p0 = example_payload_joins [of "''q0''"]
  note p1 = example_payload_joins [of "''q1''"]
  show ?thesis
    by (rule conjI [OF h1 conjI [OF h2 conjI [OF p0 conjI [OF p1
          conjI [OF h4 conjI [OF h5 conjI [OF h6 c]]]]]]])
qed

section \<open>Resequencing\<close>

lemma fold_assign_position:
  "fold (\<lambda>(idx, row). assign_position (id_col row) idx) (enumerate n rs) s
     = map (renumber n rs) s"
proof (induction rs arbitrary: n s)
  case Nil
  show ?case by simp
next
  case (Cons x xs)
  have "fold (\<lambda>(idx, row). assign_position (id_col row) idx) (enumerate n (x # xs)) s
      = fold (\<lambda>(idx, row). assign_position (id_col row) idx) (enumerate (Suc n) xs)
          (assign_position (id_col x) n s)"
    by simp
  also have "\<dots> = map (renumber (Suc n) xs) (assign_position (id_col x) n s)"
    by (rule Cons.IH)
  also have "\<dots> = map (renumber n (x # xs)) s"
    by (simp add: assign_position_def)
  finally show ?case .
qed

lemma resequence_map:
  "resequence d g h sg s
     = map (renumber 1 (order_by (\<lambda>a b. joined_at a \<le> joined_at b)
                          (filter (in_group d g h sg) s))) s"
  by (simp add: resequence_def fold_assign_position)

lemma reposition_fields [simp]:
  "id_col (reposition n r) = id_col r" "name (reposition n r) = name r"
  "guests (reposition n r) = guests r"
  "notification_method (reposition n r) = notification_method r"
  "contact (reposition n r) = contact r" "hall (reposition n r) = hall r"
  "segment (reposition n r) = segment r" "joined_at (reposition n r) = joined_at r"
  "queue_date (reposition n r) = queue_date r"
  "notified_at_5_min (reposition n r) = notified_at_5_min r"
  "position (reposition n r) = int n"
  "estimated_wait_minutes (reposition n r) = real_of_int (int n * 60)"
  by (simp_all add: reposition_def)

lemma renumber_id [simp]: "id_col (renumber n rs r) = id_col r"
  by (induction rs arbitrary: n r) simp_all

lemma renumber_group [simp]: "in_group d g h sg (renumber n rs r) = in_group d g h sg r"
  by (induction rs arbitrary: n r) (simp_all add: in_group_def)

lemma renumber_joined_at [simp]: "joined_at (renumber n rs r) = joined_at r"
  by (induction rs arbitrary: n r) simp_all

lemma renumber_other: "id_col r \<notin> id_col ` set rs \<Longrightarrow> renumber n rs r = r"
  by (induction rs arbitrary: n) auto

lemma renumber_nth:
  "distinct (map id_col rs) \<Longrightarrow> i < length rs \<Longrightarrow> id_col r = id_col (rs ! i) \<Longrightarrow>
     renumber n rs r = reposition (n + i) r"
proof (induction rs arbitrary: n i r)
  case Nil
  then show ?case by simp
next
  case (Cons x xs)
  show ?case
  proof (cases i)
    case 0
    with Cons.prems have "id_col r = id_col x" "id_col x \<notin> id_col ` set xs" by simp_all
    then show ?thesis using 0 by (simp add: renumber_other)
  next
    case (Suc j)
    with Cons.prems have j: "j < length xs" and idr: "id_col r = id_col (xs ! j)"
      and d: "distinct (map id_col xs)" and x: "id_col x \<notin> id_col ` set xs" by simp_all
    from j have "xs ! j \<in> set xs" by simp
    with idr x have "id_col r \<noteq> id_col x" by force
    with Cons.IH [OF d j idr, of "Suc n"] Suc show ?thesis by simp
  qed
qed

lemma renumber_rows:
  assumes "distinct (map id_col rs)"
  shows "map (renumber n rs) rs = map (\<lambda>(idx, r). reposition idx r) (enumerate n rs)"
proof (rule nth_equalityI)
  show "length (map (renumber n rs) rs)
      = length (map (\<lambda>(idx, r). reposition idx r) (enumerate n rs))" by simp
next
  fix i assume "i < length (map (renumber n rs) rs)"
  then have i: "i < length rs" by simp
  from renumber_nth [OF assms i refl, of n] i
  show "map (renumber n rs) rs ! i = map (\<lambda>(idx, r). reposition idx r) (enumerate n rs) ! i"
    by (simp add: nth_enumerate_eq)
qed

lemma positions_enumerate:
  "map position (map (\<lambda>(idx, r). reposition idx r) (enumerate n rs))
     = map int [n..<n + length rs]"
  by (induction rs arbitrary: n) (simp_all add: upt_rec)

lemma joined_at_sorted_order_by:
  "sorted (map joined_at (order_by (\<lambda>a b. joined_at a \<le> joined_at b) xs))"
proof -
  have "sorted_wrt (\<lambda>a b. joined_at a \<le> joined_at b)
          (order_by (\<lambda>a b. joined_at a \<le> joined_at b) xs)"
    by (rule sorted_order_by) auto
  then show ?thesis by (simp add: sorted_map)
qed

lemma mset_map_cong: "mset xs = mset ys \<Longrightarrow> mset (map f xs) = mset (map f ys)"
  by simp

lemma distinct_ids_rows:
  assumes "well_formed s" and "mset rows = mset (filter G s)"
  shows "distinct (map id_col rows)"
proof -
  from assms(1) have d: "distinct (map id_col (filter G s))"
    unfolding well_formed_def by (rule distinct_map_filter)
  from assms(2) have "mset (map id_col rows) = mset (map id_col (filter G s))"
    by (rule mset_map_cong)
  from mset_eq_imp_distinct_iff [OF this] d show ?thesis by blast
qed

lemma map_id_col_resequence [simp]: "map id_col (resequence d g h sg s) = map id_col s"
  by (simp add: resequence_map)

lemma well_formed_resequence: "well_formed s \<Longrightarrow> well_formed (resequence d g h sg s)"
  by (simp add: well_formed_def)

lemma resequence_group:
  "filter (in_group d' g' h' sg') (resequence d g h sg s)
     = map (renumber 1 (order_by (\<lambda>a b. joined_at a \<le> joined_at b)
                          (filter (in_group d g h sg) s)))
         (filter (in_group d' g' h' sg') s)"
  by (simp add: resequence_map filter_map comp_def)

lemma resequence_outside:
  assumes wf: "well_formed s" and r: "r \<in> set s" and out: "\<not> in_group d g h sg r"
  shows "renumber n (order_by (\<lambda>a b. joined_at a \<le> joined_at b)
                       (filter (in_group d g h sg) s)) r = r"
proof (rule renumber_other, rule notI)
  let ?rows = "order_by (\<lambda>a b. joined_at a \<le> joined_at b) (filter (in_group d g h sg) s)"
  assume "id_col r \<in> id_col ` set ?rows"
  then obtain x where x: "x \<in> set ?rows" "id_col r = id_col x" by auto
  have "set ?rows = set (filter (in_group d g h sg) s)"
    using mset_order_by [of "\<lambda>a b. joined_at a \<le> joined_at b" "filter (in_group d g h sg) s"]
    by (rule mset_eq_setD)
  with x have "x \<in> set s" "in_group d g h sg x" by simp_all
  with well_formed_unique [OF wf r \<open>x \<in> set s\<close> x(2)] out show False by simp
qed

lemma resequence_other_rows:
  assumes wf: "well_formed s"
  shows "filter (\<lambda>r. \<not> in_group d g h sg r) (resequence d g h sg s)
           = filter (\<lambda>r. \<not> in_group d g h sg r) s"
proof -
  let ?rows = "order_by (\<lambda>a b. joined_at a \<le> joined_at b) (filter (in_group d g h sg) s)"
  have "filter (\<lambda>r. \<not> in_group d g h sg r) (resequence d g h sg s)
      = map (renumber 1 ?rows) (filter (\<lambda>r. \<not> in_group d g h sg r) s)"
    by (simp add: resequence_map filter_map comp_def)
  also have "\<dots> = filter (\<lambda>r. \<not> in_group d g h sg r) s"
    by (rule map_idI) (simp add: resequence_outside [OF wf])
  finally show ?thesis .
qed

lemma resequence_renumbers:
  assumes wf: "well_formed s"
  shows "mset (filter (in_group d g h sg) (resequence d g h sg s))
           = mset (map (\<lambda>(idx, r). reposition idx r)
                     (enumerate 1 (order_by (\<lambda>a b. joined_at a \<le> joined_at b)
                                     (filter (in_group d g h sg) s))))"
proof -
  let ?rows = "order_by (\<lambda>a b. joined_at a \<le> joined_at b) (filter (in_group d g h sg) s)"
  have rows: "mset ?rows = mset (filter (in_group d g h sg) s)" by (rule mset_order_by)
  have "mset (filter (in_group d g h sg) (resequence d g h sg s))
      = mset (map (renumber 1 ?rows) (filter (in_group d g h sg) s))"
    by (simp only: resequence_group)
  also have "\<dots> = mset (map (renumber 1 ?rows) ?rows)"
    by (rule mset_map_cong [OF rows [symmetric]])
  also have "\<dots> = mset (map (\<lambda>(idx, r). reposition idx r) (enumerate 1 ?rows))"
    by (simp only: renumber_rows [OF distinct_ids_rows [OF wf rows]])
  finally show ?thesis .
qed

lemma session_delete_remove1:
  "well_formed s \<Longrightarrow> e \<in> set s \<Longrightarrow> session_delete e s = remove1 e s"
proof (induction s)
  case Nil
  then show ?case by simp
next
  case (Cons a s)
  show ?case
  proof (cases "a = e")
    case True
    with Cons.prems have "\<forall>r \<in> set s. id_col r \<noteq> id_col e"
      by (auto simp: well_formed_def image_iff)
    then have "filter (\<lambda>r. id_col r \<noteq> id_col e) s = s" by (simp add: filter_id_conv)
    with True show ?thesis by (simp add: session_delete_def)
  next
    case False
    with Cons.prems have mem: "e \<in> set s" and wf: "well_formed s"
      by (simp_all add: well_formed_def)
    from Cons.prems mem False have "id_col a \<noteq> id_col e"
      by (auto simp: well_formed_def image_iff)
    with Cons.IH [OF wf mem] False show ?thesis by (simp add: session_delete_def)
  qed
qed

lemma well_formed_delete: "well_formed s \<Longrightarrow> well_formed (session_delete e s)"
  unfolding well_formed_def session_delete_def by (rule distinct_map_filter)

lemma filter_remove1_out: "\<not> P x \<Longrightarrow> filter P (remove1 x xs) = filter P xs"
  by (induction xs) auto

section \<open>Cancelling an entry\<close>

text \<open>
  Claim C4. Cancelling a row \<open>e\<close> of a well-formed table answers 200, removes exactly the
  row with that id (the other ids keep their order), and leaves every row outside the
  group of \<open>e\<close> as it was. The rows that remain in the group, listed as \<open>rows\<close> by
  ascending join time, get the positions 1, 2, ... in that listing (and the wait that goes
  with the position) and are otherwise unchanged: the positions of a group of \<open>N\<close> rows
  become \<open>1..N - 1\<close>. Nothing is assumed about the positions before the cancellation.
\<close>

theorem cancel_resequences_group:
  assumes wf: "well_formed s" and e: "query_get k s = Some e"
  shows "\<exists>rows s'.
     cancel_queue k s = ((200, JObj [(''ok'', JBool True)]), s') \<and>
     map id_col s' = filter (\<lambda>i. i \<noteq> k) (map id_col s) \<and>
     filter (\<lambda>r. \<not> in_group (queue_date e) (guests e) (hall e) (segment e) r) s'
       = filter (\<lambda>r. \<not> in_group (queue_date e) (guests e) (hall e) (segment e) r) s \<and>
     mset rows = mset (filter (in_group (queue_date e) (guests e) (hall e) (segment e)) s) - {#e#} \<and>
     sorted (map joined_at rows) \<and>
     mset (filter (in_group (queue_date e) (guests e) (hall e) (segment e)) s')
       = mset (map (\<lambda>(idx, r). reposition idx r) (enumerate 1 rows)) \<and>
     mset (map position (filter (in_group (queue_date e) (guests e) (hall e) (segment e)) s'))
       = mset (map int [1..<length (filter (in_group (queue_date e) (guests e) (hall e) (segment e)) s)])"
proof -
  let ?G = "in_group (queue_date e) (guests e) (hall e) (segment e)"
  let ?s1 = "session_delete e s"
  let ?rows = "order_by (\<lambda>a b. joined_at a \<le> joined_at b) (filter ?G ?s1)"
  let ?s' = "resequence (queue_date e) (guests e) (hall e) (segment e) ?s1"
  from query_get_SomeD [OF e] have mem: "e \<in> set s" and idk: "id_col e = k" by simp_all
  have Ge: "?G e" by (simp add: in_group_def)
  have wf1: "well_formed ?s1" by (rule well_formed_delete [OF wf])
  have del: "?s1 = remove1 e s" by (rule session_delete_remove1 [OF wf mem])
  have result: "cancel_queue k s = ((200, JObj [(''ok'', JBool True)]), ?s')"
    using e by (simp add: cancel_queue_def json_response_ok_def json_response_def)
  have ids: "map id_col ?s' = filter (\<lambda>i. i \<noteq> k) (map id_col s)"
    using idk by (simp add: session_delete_def filter_map comp_def)
  have "filter (\<lambda>r. \<not> ?G r) ?s' = filter (\<lambda>r. \<not> ?G r) ?s1"
    by (rule resequence_other_rows [OF wf1])
  also have "\<dots> = filter (\<lambda>r. \<not> ?G r) s"
    using Ge by (simp add: del filter_remove1_out)
  finally have outside: "filter (\<lambda>r. \<not> ?G r) ?s' = filter (\<lambda>r. \<not> ?G r) s" .
  have "mset ?rows = mset (filter ?G ?s1)" by (rule mset_order_by)
  also have "\<dots> = mset (filter ?G s) - {#e#}"
    by (simp add: del filter_remove1)
  finally have rows: "mset ?rows = mset (filter ?G s) - {#e#}" .
  have sorted: "sorted (map joined_at ?rows)" by (rule joined_at_sorted_order_by)
  have group: "mset (filter ?G ?s')
      = mset (map (\<lambda>(idx, r). reposition idx r) (enumerate 1 ?rows))"
    by (rule resequence_renumbers [OF wf1])
  have "length ?rows = length (filter ?G ?s1)"
    by (rule mset_eq_length [OF mset_order_by])
  also have "\<dots> = length (remove1 e (filter ?G s))"
    by (simp add: del filter_remove1)
  also have "\<dots> = length (filter ?G s) - 1"
    using mem Ge by (simp add: length_remove1)
  finally have "length ?rows = length (filter ?G s) - 1" .
  moreover from mem Ge have "e \<in> set (filter ?G s)" by simp
  then have "0 < length (filter ?G s)" by (rule length_pos_if_in_set)
  ultimately have len: "1 + length ?rows = length (filter ?G s)" by simp
  have "mset (map position (filter ?G ?s'))
      = mset (map position (map (\<lambda>(idx, r). reposition idx r) (enumerate 1 ?rows)))"
    by (rule mset_map_cong [OF group])
  also have "\<dots> = mset (map int [1..<1 + length ?rows])"
    by (simp only: positions_enumerate)
  finally have positions: "mset (map position (filter ?G ?s'))
      = mset (map int [1..<length (filter ?G s)])"
    by (simp only: len)
  from result ids outside rows sorted group positions show ?thesis by blast
qed

theorem cancel_resequences_group_witness:
  "well_formed [example_entry ''q0'' 1 3, example_entry ''q1'' 2 4, example_entry ''q2'' 3 5] \<and>
   query_get ''q1'' [example_entry ''q0'' 1 3, example_entry ''q1'' 2 4, example_entry ''q2'' 3 5]
     = Some (example_entry ''q1'' 2 4) \<and>
   (\<exists>rows s'.
     cancel_queue ''q1'' [example_entry ''q0'' 1 3, example_entry ''q1'' 2 4, example_entry ''q2'' 3 5]
       = ((200, JObj [(''ok'', JBool True)]), s') \<and>
     map id_col s' = [''q0'', ''q2''] \<and>
     filter (\<lambda>r. \<not> in_group ''2026-01-31'' 2 ''AC'' ''front'' r) s' = [] \<and>
     mset rows = {#example_entry ''q0'' 1 3, example_entry ''q2'' 3 5#} \<and>
     sorted (map joined_at rows) \<and>
     mset (filter (in_group ''2026-01-31'' 2 ''AC'' ''front'') s')
       = mset (map (\<lambda>(idx, r). reposition idx r) (enumerate 1 rows)) \<and>
     mset (map position (filter (in_group ''2026-01-31'' 2 ''AC'' ''front'') s')) = {#1, 2#})"
proof -
  let ?s = "[example_entry ''q0'' 1 3, example_entry ''q1'' 2 4, example_entry ''q2'' 3 5]"
  have h1: "well_formed ?s" by (simp add: well_formed_def example_entry_def)
  have h2: "query_get ''q1'' ?s = Some (example_entry ''q1'' 2 4)"
    by (simp add: query_get_def example_entry_def)
  have key: "queue_date (example_entry ''q1'' 2 4) = ''2026-01-31''"
    "guests (example_entry ''q1'' 2 4) = 2" "hall (example_entry ''q1'' 2 4) = ''AC''"
    "segment (example_entry ''q1'' 2 4) = ''front''"
    by (simp_all add: example_entry_def)
  have grp: "filter (in_group ''2026-01-31'' 2 ''AC'' ''front'') ?s = ?s"
    by (simp add: in_group_def example_entry_def)
  have out: "filter (\<lambda>r. \<not> in_group ''2026-01-31'' 2 ''AC'' ''front'' r) ?s = []"
    by (simp add: in_group_def example_entry_def)
  have ids: "filter (\<lambda>i. i \<noteq> ''q1'') (map id_col ?s) = [''q0'', ''q2'']"
    by (simp add: example_entry_def)
  have rest: "mset ?s - {#example_entry ''q1'' 2 4#}
      = {#example_entry ''q0'' 1 3, example_entry ''q2'' 3 5#}"
    by simp
  have nums: "mset (map int [1..<length ?s]) = {#1, 2#}"
    by (simp add: upt_rec)
  have c: "\<exists>rows s'.
     cancel_queue ''q1'' ?s = ((200, JObj [(''ok'', JBool True)]), s') \<and>
     map id_col s' = [''q0'', ''q2''] \<and>
     filter (\<lambda>r. \<not> in_group ''2026-01-31'' 2 ''AC'' ''front'' r) s' = [] \<and>
     mset rows = {#example_entry ''q0'' 1 3, example_entry ''q2'' 3 5#} \<and>
     sorted (map joined_at rows) \<and>
     mset (filter (in_group ''2026-01-31'' 2 ''AC'' ''front'') s')
       = mset (map (\<lambda>(idx, r). reposition idx r) (enumerate 1 rows)) \<and>
     mset (map position (filter (in_group ''2026-01-31'' 2 ''AC'' ''front'') s')) = {#1, 2#}"
    using cancel_resequences_group [OF h1 h2] unfolding key grp out ids rest nums .
  show ?thesis by (rule conjI [OF h1 conjI [OF h2 c]])
qed

section \<open>The outcomes of a join\<close>

lemma join_queue_cases:
  obtains (raised) err where "join_queue rt now data s = Inl err"
  | (refused) k where
      "join_queue rt now data s
         = Inr ((400, JObj [(''error'', JStr (k @ ''_required''))]), s)"
  | (created) e v where
      "join_queue rt now data s
         = Inr ((201, JObj (serialize_entry rt e)), session_merge e s)"
      "data ''id'' = Some v" "id_col e = py_str rt v"
      "position e = next_position (queue_date e) (guests e) (hall e) (segment e) s"
      "estimated_wait_minutes e = real_of_int (position e * 60)"
      "joined_at e = now"
proof (cases "find (\<lambda>k. data k = None) required")
  case (Some k)
  then have "join_queue rt now data s
      = Inr ((400, JObj [(''error'', JStr (k @ ''_required''))]), s)"
    by (simp add: join_queue_def json_response_def)
  then show ?thesis by (rule refused)
next
  case None
  then have "\<forall>k \<in> set required. data k \<noteq> None" by (simp add: find_None_iff)
  then obtain vi vn vg vm vc vh vs vd where v:
    "data ''id'' = Some vi" "data ''name'' = Some vn" "data ''guests'' = Some vg"
    "data ''notificationMethod'' = Some vm" "data ''contact'' = Some vc"
    "data ''hall'' = Some vh" "data ''segment'' = Some vs" "data ''queueDate'' = Some vd"
    by (auto simp: required_def)
  show ?thesis
  proof (cases "py_int rt vg")
    case (Inl err)
    with None v have "join_queue rt now data s = Inl err"
      by (simp add: join_queue_def and_then_def getitem_def)
    then show ?thesis by (rule raised)
  next
    case (Inr g)
    with v have "joins_group rt data (py_str rt vi) (py_str rt vd) g (py_str rt vh) (py_str rt vs)"
      by (simp add: joins_group_def)
    from join_queue_created [OF this, of now s] obtain e where e:
      "join_queue rt now data s
         = Inr ((201, JObj (serialize_entry rt e)), session_merge e s)"
      "id_col e = py_str rt vi" "in_group (py_str rt vd) g (py_str rt vh) (py_str rt vs) e"
      "position e = next_position (py_str rt vd) g (py_str rt vh) (py_str rt vs) s"
      "estimated_wait_minutes e = real_of_int (position e * 60)"
      "joined_at e = now"
      by blast
    from e(3,4) have "position e
        = next_position (queue_date e) (guests e) (hall e) (segment e) s"
      by (simp add: in_group_def)
    with e v(1) show ?thesis by (intro created [of e vi]) simp_all
  qed
qed

lemma set_session_merge: "set (session_merge e s) \<subseteq> insert e (set s)"
  by (auto simp: session_merge_def)

lemma wait_matches_reposition [simp]: "wait_matches (reposition n r)"
  by (simp add: wait_matches_def)

lemma wait_matches_renumber: "wait_matches r \<Longrightarrow> wait_matches (renumber n rs r)"
  by (induction rs arbitrary: n r) simp_all

lemma patched_wait_kept:
  "\<not> isinstance_int_float (dict_get data ''estimatedWaitMinutes'') \<Longrightarrow>
     patched_wait data e = estimated_wait_minutes e"
  by (auto simp: patched_wait_def dict_get_def isinstance_int_float_def
      split: option.splits json.splits)

lemma wait_fits_kept:
  "\<not> isinstance_int_float (dict_get data ''estimatedWaitMinutes'') \<Longrightarrow>
     \<not> wait_overflows data"
  by (auto simp: wait_overflows_def dict_get_def isinstance_int_float_def
      split: option.splits json.splits)

lemma wait_matches_handle:
  assumes inv: "\<forall>r \<in> set s. wait_matches r" and rq: "\<not> overrides_wait rq"
  shows "\<forall>r \<in> set (handle rt rq s). wait_matches r"
proof (cases rq)
  case (Join now data)
  show ?thesis
  proof (cases rule: join_queue_cases [of rt now data s])
    case (raised err)
    with Join inv show ?thesis by (simp add: handle_def)
  next
    case (refused k)
    with Join inv show ?thesis by (simp add: handle_def)
  next
    case (created e v)
    then have "wait_matches e" by (simp add: wait_matches_def)
    with inv set_session_merge [of e s] have "\<forall>r \<in> set (session_merge e s). wait_matches r"
      by auto
    with Join created(1) show ?thesis by (simp add: handle_def)
  qed
next
  case (Cancel k)
  show ?thesis
  proof (cases "query_get k s")
    case None
    with Cancel inv show ?thesis by (simp add: handle_def cancel_queue_def)
  next
    case (Some e)
    from inv have "\<forall>r \<in> set (session_delete e s). wait_matches r"
      by (simp add: session_delete_def)
    then have "\<forall>r \<in> set (resequence (queue_date e) (guests e) (hall e) (segment e)
        (session_delete e s)). wait_matches r"
      by (auto simp: resequence_map intro: wait_matches_renumber)
    with Cancel Some show ?thesis by (simp add: handle_def cancel_queue_def Let_def)
  qed
next
  case (Patch k data)
  with rq have keep: "\<not> isinstance_int_float (dict_get data ''estimatedWaitMinutes'')"
    by (simp add: overrides_wait_def)
  show ?thesis
  proof (cases "query_get k s")
    case None
    with Patch inv show ?thesis by (simp add: handle_def update_queue_entry_def)
  next
    case (Some e)
    from query_get_SomeD [OF Some] inv have "wait_matches e" by simp
    then have "wait_matches (e\<lparr> notified_at_5_min := patched_flag data e,
                  estimated_wait_minutes := patched_wait data e \<rparr>)"
      by (simp add: wait_matches_def patched_wait_kept [OF keep])
    with inv Patch show ?thesis
      by (auto simp: handle_def update_queue_entry_found [OF Some wait_fits_kept [OF keep]])
  qed
qed

lemma join_example_payload:
  "join_queue example_runtime now (example_payload k) s
     = Inr ((201, JObj (serialize_entry example_runtime
                (example_entry k (next_position ''2026-01-31'' 2 ''AC'' ''front'' s) now))),
            session_merge (example_entry k (next_position ''2026-01-31'' 2 ''AC'' ''front'' s) now) s)"
proof -
  have no_missing: "find (\<lambda>f. example_payload k f = None) required = None"
    by (simp add: required_def example_payload_def)
  show ?thesis
    unfolding join_queue_def no_missing
    by (simp add: example_payload_def example_entry_def example_runtime_def and_then_def
        getitem_def py_int_def py_str_def py_bool_def dict_get_default_def json_response_def
        Let_def)
qed

section \<open>The wait that goes with the position\<close>

text \<open>
  Claim C2, in the form the code satisfies. After any sequence of joins, cancellations and
  patches run from the empty table, in which no patch overrides the wait (none carries an
  \<^verbatim>\<open>estimatedWaitMinutes\<close> that is an int, a float or a boolean), the wait of every
  row is its position times 60.
\<close>

theorem wait_matches_position:
  assumes "\<forall>rq \<in> set rqs. \<not> overrides_wait rq"
  shows "\<forall>r \<in> set (run rt rqs []). estimated_wait_minutes r = real_of_int (position r * 60)"
proof -
  have "\<forall>r \<in> set s. wait_matches r \<Longrightarrow> \<forall>rq \<in> set rqs. \<not> overrides_wait rq \<Longrightarrow>
        \<forall>r \<in> set (run rt rqs s). wait_matches r" for s
  proof (induction rqs arbitrary: s)
    case Nil
    then show ?case by (simp add: run_def)
  next
    case (Cons rq rqs)
    from Cons.prems have "\<forall>r \<in> set (handle rt rq s). wait_matches r"
      by (intro wait_matches_handle) simp_all
    with Cons.IH [of "handle rt rq s"] Cons.prems(2) show ?case by (simp add: run_def)
  qed
  from this [of "[]"] assms show ?thesis by (simp add: wait_matches_def)
qed

theorem wait_matches_position_witness:
  "\<not> overrides_wait (Join 5 (example_payload ''q0'')) \<and>
   \<not> overrides_wait (Patch ''q0'' [''notifiedAt5Min'' \<mapsto> JBool True]) \<and>
   list_all (\<lambda>r. estimated_wait_minutes r = real_of_int (position r * 60))
     (run example_runtime
        [Join 5 (example_payload ''q0''), Patch ''q0'' [''notifiedAt5Min'' \<mapsto> JBool True]] [])"
proof -
  have h1: "\<not> overrides_wait (Join 5 (example_payload ''q0''))"
    by (simp add: overrides_wait_def)
  have h2: "\<not> overrides_wait (Patch ''q0'' [''notifiedAt5Min'' \<mapsto> JBool True])"
    by (simp add: overrides_wait_def dict_get_def isinstance_int_float_def)
  from h1 h2 have h: "\<forall>rq \<in> set [Join 5 (example_payload ''q0''),
      Patch ''q0'' [''notifiedAt5Min'' \<mapsto> JBool True]]. \<not> overrides_wait rq"
    by simp
  from wait_matches_position [OF h, of example_runtime]
  have c: "list_all (\<lambda>r. estimated_wait_minutes r = real_of_int (position r * 60))
     (run example_runtime
        [Join 5 (example_payload ''q0''), Patch ''q0'' [''notifiedAt5Min'' \<mapsto> JBool True]] [])"
    by (simp only: list_all_iff)
  show ?thesis by (rule conjI [OF h1 conjI [OF h2 c]])
qed

text \<open>
  The claim as stated covers every patch. A patch with \<^verbatim>\<open>{"estimatedWaitMinutes": 5}\<close>
  after a join leaves a row at position 1 whose wait is 5, not 60.
\<close>

theorem wait_override_counterexample:
  "run example_runtime
     [Join 5 (example_payload ''q0''), Patch ''q0'' [''estimatedWaitMinutes'' \<mapsto> JInt 5]] []
     = [(example_entry ''q0'' 1 5)\<lparr> estimated_wait_minutes := 5 \<rparr>] \<and>
   position ((example_entry ''q0'' 1 5)\<lparr> estimated_wait_minutes := 5 \<rparr>) = 1 \<and>
   estimated_wait_minutes ((example_entry ''q0'' 1 5)\<lparr> estimated_wait_minutes := 5 \<rparr>) = 5"
proof -
  have j: "handle example_runtime (Join 5 (example_payload ''q0'')) [] = [example_entry ''q0'' 1 5]"
    by (simp add: handle_def join_example_payload next_position_def session_merge_def)
  have u: "update_queue_entry example_runtime ''q0'' [''estimatedWaitMinutes'' \<mapsto> JInt 5]
      [example_entry ''q0'' 1 5]
      = Inr ((200, JObj (serialize_entry example_runtime
                  ((example_entry ''q0'' 1 5)\<lparr> estimated_wait_minutes := 5 \<rparr>))),
             [(example_entry ''q0'' 1 5)\<lparr> estimated_wait_minutes := 5 \<rparr>])"
    by (simp add: update_queue_entry_def query_get_def example_entry_def and_then_def
        dict_get_def getitem_def isinstance_bool_def isinstance_int_float_def py_float_def
        float_of_int_def double_overflow_def nearest_double_def round_double_def
        json_response_ok_def json_response_def session_update_def)
  have p: "handle example_runtime (Patch ''q0'' [''estimatedWaitMinutes'' \<mapsto> JInt 5])
      [example_entry ''q0'' 1 5] = [(example_entry ''q0'' 1 5)\<lparr> estimated_wait_minutes := 5 \<rparr>]"
    unfolding handle_def by (simp add: u)
  have r: "run example_runtime
     [Join 5 (example_payload ''q0''), Patch ''q0'' [''estimatedWaitMinutes'' \<mapsto> JInt 5]] []
     = [(example_entry ''q0'' 1 5)\<lparr> estimated_wait_minutes := 5 \<rparr>]"
    by (simp add: run_def j p)
  show ?thesis
    unfolding r by (simp add: example_entry_def)
qed

section \<open>Listings of a group\<close>

lemma sorted_map_int_upt: "sorted (map int [m..<n])"
  by (simp add: sorted_map)

lemma distinct_map_int_upt: "distinct (map int [m..<n])"
  by (simp add: distinct_map)

lemma listed_sequenced:
  assumes "listed grp"
  shows "sequenced grp"
proof -
  from assms obtain rows where rows: "mset rows = mset grp"
    "map position rows = map int [1..<Suc (length grp)]" "sorted (map joined_at rows)"
    unfolding listed_def by blast
  from rows(2) have "distinct (map position rows)" "sorted (map position rows)"
    by (simp_all only: distinct_map_int_upt sorted_map_int_upt)
  then have "inj_on position (set rows)" by (simp add: distinct_map)
  moreover from rows(1) have "set rows = set grp" by (rule mset_eq_setD)
  ultimately have "inj_on position (set grp)" by simp
  from sort_key_inj_key_eq [OF rows(1) [symmetric] this \<open>sorted (map position rows)\<close>]
  have "sort_key position grp = rows" .
  with rows show ?thesis by (simp add: sequenced_def)
qed

lemma listed_snoc:
  assumes l: "listed grp" and pos: "position e = int (length grp) + 1"
    and late: "\<forall>r \<in> set grp. joined_at r \<le> joined_at e"
  shows "listed (grp @ [e])"
proof -
  from l obtain rows where rows: "mset rows = mset grp"
    "map position rows = map int [1..<Suc (length grp)]" "sorted (map joined_at rows)"
    unfolding listed_def by blast
  from rows(1) have set: "set rows = set grp" by (rule mset_eq_setD)
  have "mset (rows @ [e]) = mset (grp @ [e])" using rows(1) by simp
  moreover have "map position (rows @ [e]) = map int [1..<Suc (length (grp @ [e]))]"
    using rows(2) pos by simp
  moreover have "sorted (map joined_at (rows @ [e]))"
    using rows(3) late set by (simp add: sorted_append)
  ultimately show ?thesis unfolding listed_def by blast
qed

lemma listed_map:
  assumes l: "listed grp"
    and same: "\<forall>r \<in> set grp. position (f r) = position r \<and> joined_at (f r) = joined_at r"
  shows "listed (map f grp)"
proof -
  from l obtain rows where rows: "mset rows = mset grp"
    "map position rows = map int [1..<Suc (length grp)]" "sorted (map joined_at rows)"
    unfolding listed_def by blast
  from rows(1) have set: "set rows = set grp" by (rule mset_eq_setD)
  have m: "mset (map f rows) = mset (map f grp)" by (rule mset_map_cong [OF rows(1)])
  have p: "map position (map f rows) = map position rows"
    using same set by simp
  have j: "map joined_at (map f rows) = map joined_at rows"
    using same set by simp
  have p': "map position (map f rows) = map int [1..<Suc (length (map f grp))]"
    by (simp only: p rows(2) length_map)
  have j': "sorted (map joined_at (map f rows))"
    by (simp only: j rows(3))
  from m p' j' show ?thesis unfolding listed_def by blast
qed

lemma joined_at_enumerate:
  "map joined_at (map (\<lambda>(idx, r). reposition idx r) (enumerate n rs)) = map joined_at rs"
  by (induction rs arbitrary: n) simp_all

lemma listed_renumbered:
  assumes grp: "mset grp = mset (map (\<lambda>(idx, r). reposition idx r) (enumerate 1 rows))"
    and sorted: "sorted (map joined_at rows)"
  shows "listed grp"
proof -
  let ?rows' = "map (\<lambda>(idx, r). reposition idx r) (enumerate 1 rows)"
  from grp have "length grp = length ?rows'" by (rule mset_eq_length)
  then have len: "length grp = length rows" by simp
  have "map position ?rows' = map int [1..<1 + length rows]" by (rule positions_enumerate)
  with len have "map position ?rows' = map int [1..<Suc (length grp)]" by simp
  moreover have "sorted (map joined_at ?rows')"
    using sorted by (simp only: joined_at_enumerate)
  ultimately show ?thesis using grp unfolding listed_def by metis
qed

section \<open>Every request keeps the groups sequenced\<close>

lemma ordered_store_empty: "ordered_store []"
  by (simp add: ordered_store_def well_formed_def listed_def)

lemma in_group_keys:
  "in_group d g h sg e \<Longrightarrow> in_group (queue_date e) (guests e) (hall e) (segment e) = in_group d g h sg"
  by (auto simp: in_group_def fun_eq_iff)

lemma ordered_store_join:
  assumes inv: "ordered_store s" and fresh: "fresh_join rt (Join now data) s"
  shows "ordered_store (handle rt (Join now data) s)"
proof (cases rule: join_queue_cases [of rt now data s])
  case (raised err)
  with inv show ?thesis by (simp add: handle_def)
next
  case (refused k)
  with inv show ?thesis by (simp add: handle_def)
next
  case (created e v)
  from inv have wf: "well_formed s" by (simp add: ordered_store_def)
  from fresh created(2,3) have new: "id_col e \<notin> set (map id_col s)"
    by (simp add: fresh_join_def)
  then have merged: "session_merge e s = s @ [e]" by (simp add: session_merge_def)
  from fresh created(6) have late: "\<forall>r \<in> set s. joined_at r \<le> joined_at e"
    by (simp add: fresh_join_def)
  have "listed (filter (in_group d g h sg) (s @ [e]))" for d g h sg
  proof (cases "in_group d g h sg e")
    case True
    from in_group_keys [OF True] created(4)
    have "position e = int (length (filter (in_group d g h sg) s)) + 1"
      by (simp add: next_position_def)
    moreover from inv have "listed (filter (in_group d g h sg) s)"
      by (simp add: ordered_store_def)
    moreover from late have "\<forall>r \<in> set (filter (in_group d g h sg) s). joined_at r \<le> joined_at e"
      by simp
    ultimately have "listed (filter (in_group d g h sg) s @ [e])" by (intro listed_snoc)
    with True show ?thesis by simp
  next
    case False
    with inv show ?thesis by (simp add: ordered_store_def)
  qed
  moreover from well_formed_merge [OF wf, of e] merged have "well_formed (s @ [e])" by simp
  ultimately have "ordered_store (s @ [e])" by (simp add: ordered_store_def)
  with created(1) merged show ?thesis by (simp add: handle_def)
qed

lemma ordered_store_cancel:
  assumes inv: "ordered_store s"
  shows "ordered_store (handle rt (Cancel k) s)"
proof (cases "query_get k s")
  case None
  with inv show ?thesis by (simp add: handle_def cancel_queue_def)
next
  case (Some e)
  let ?s1 = "session_delete e s"
  let ?s' = "resequence (queue_date e) (guests e) (hall e) (segment e) ?s1"
  from inv have wf: "well_formed s" by (simp add: ordered_store_def)
  from query_get_SomeD [OF Some] have mem: "e \<in> set s" by simp
  have wf1: "well_formed ?s1" by (rule well_formed_delete [OF wf])
  have del: "?s1 = remove1 e s" by (rule session_delete_remove1 [OF wf mem])
  have "listed (filter (in_group d g h sg) ?s')" for d g h sg
  proof (cases "in_group d g h sg e")
    case True
    note keys = in_group_keys [OF True]
    have "mset (filter (in_group (queue_date e) (guests e) (hall e) (segment e)) ?s')
        = mset (map (\<lambda>(idx, r). reposition idx r)
            (enumerate 1 (order_by (\<lambda>a b. joined_at a \<le> joined_at b)
               (filter (in_group (queue_date e) (guests e) (hall e) (segment e)) ?s1))))"
      by (rule resequence_renumbers [OF wf1])
    from listed_renumbered [OF this joined_at_sorted_order_by] show ?thesis
      by (simp only: keys)
  next
    case False
    have other: "\<not> in_group (queue_date e) (guests e) (hall e) (segment e) r"
      if "in_group d g h sg r" for r
      using that False by (auto simp: in_group_def)
    have "filter (in_group d g h sg) ?s'
        = map (renumber 1 (order_by (\<lambda>a b. joined_at a \<le> joined_at b)
                 (filter (in_group (queue_date e) (guests e) (hall e) (segment e)) ?s1)))
            (filter (in_group d g h sg) ?s1)"
      by (rule resequence_group)
    also have "\<dots> = filter (in_group d g h sg) ?s1"
      by (rule map_idI) (simp add: resequence_outside [OF wf1] other)
    also have "\<dots> = filter (in_group d g h sg) s"
      using False by (simp add: del filter_remove1_out)
    finally show ?thesis using inv by (simp add: ordered_store_def)
  qed
  moreover have "well_formed ?s'" by (rule well_formed_resequence [OF wf1])
  ultimately have "ordered_store ?s'" by (simp add: ordered_store_def)
  with Some show ?thesis by (simp add: handle_def cancel_queue_def Let_def)
qed

lemma ordered_store_patch:
  assumes inv: "ordered_store s"
  shows "ordered_store (handle rt (Patch k data) s)"
proof (cases "query_get k s")
  case None
  with inv show ?thesis by (simp add: handle_def update_queue_entry_def)
next
  case (Some e)
  define e' where "e' = e\<lparr> notified_at_5_min := patched_flag data e,
                             estimated_wait_minutes := patched_wait data e \<rparr>"
  define f where "f = (\<lambda>r. if id_col r = k then e' else r)"
  from inv have wf: "well_formed s" by (simp add: ordered_store_def)
  from query_get_SomeD [OF Some] have mem: "e \<in> set s" and idk: "id_col e = k" by simp_all
  have e': "id_col e' = id_col e" "position e' = position e" "joined_at e' = joined_at e"
    "queue_date e' = queue_date e" "guests e' = guests e" "hall e' = hall e"
    "segment e' = segment e"
    by (simp_all add: e'_def)
  have fields: "id_col (f r) = id_col r \<and> position (f r) = position r \<and>
      joined_at (f r) = joined_at r \<and> in_group d g h sg (f r) = in_group d g h sg r"
    if r: "r \<in> set s" for r d g h sg
  proof (cases "id_col r = k")
    case True
    with idk have "id_col r = id_col e" by simp
    from well_formed_unique [OF wf r mem this] have "r = e" .
    moreover from True have "f r = e'" by (simp add: f_def)
    ultimately show ?thesis using e' by (simp add: in_group_def)
  next
    case False
    then have "f r = r" by (simp add: f_def)
    then show ?thesis by simp
  qed
  have ids: "map id_col (map f s) = map id_col s"
    using fields by simp
  have "listed (filter (in_group d g h sg) (map f s))" for d g h sg
  proof -
    have "filter (in_group d g h sg \<circ> f) s = filter (in_group d g h sg) s"
      by (rule filter_cong) (simp_all add: fields)
    then have "filter (in_group d g h sg) (map f s) = map f (filter (in_group d g h sg) s)"
      by (simp only: filter_map)
    moreover from inv have "listed (filter (in_group d g h sg) s)"
      by (simp add: ordered_store_def)
    then have "listed (map f (filter (in_group d g h sg) s))"
      by (rule listed_map) (simp add: fields)
    ultimately show ?thesis by simp
  qed
  moreover from wf ids have "well_formed (map f s)" by (simp only: well_formed_def)
  ultimately have "ordered_store (map f s)" by (simp add: ordered_store_def)
  moreover have "handle rt (Patch k data) s = (if wait_overflows data then s else map f s)"
    by (simp add: handle_def update_queue_entry_found [OF Some]
        update_queue_entry_overflow [OF Some] f_def e'_def)
  ultimately show ?thesis using inv by simp
qed

lemma ordered_store_run:
  "ordered_store s \<Longrightarrow> admissible rt rqs s \<Longrightarrow> ordered_store (run rt rqs s)"
proof (induction rqs arbitrary: s)
  case Nil
  then show ?case by (simp add: run_def)
next
  case (Cons rq rqs)
  from Cons.prems have fresh: "fresh_join rt rq s" and rest: "admissible rt rqs (handle rt rq s)"
    by simp_all
  have "ordered_store (handle rt rq s)"
  proof (cases rq)
    case (Join now data)
    with Cons.prems(1) fresh show ?thesis by (simp add: ordered_store_join)
  next
    case (Cancel k)
    with Cons.prems(1) show ?thesis by (simp add: ordered_store_cancel)
  next
    case (Patch k data)
    with Cons.prems(1) show ?thesis by (simp add: ordered_store_patch)
  qed
  from Cons.IH [OF this rest] show ?case by (simp add: run_def)
qed

text \<open>
  Claim C1, in the form the code satisfies. In every table reached from the empty one by
  joins, cancellations and patches, where each join comes under an id not yet in the table
  and with a clock reading not earlier than the join times stored, the rows of every
  (queueDate, guests, hall, segment) group, read by position, have the positions 1..N and
  ascending join times.
\<close>

theorem positions_sequenced:
  assumes "admissible rt rqs []"
  shows "sequenced (filter (in_group d g h sg) (run rt rqs []))"
proof -
  from ordered_store_run [OF ordered_store_empty assms]
  have "listed (filter (in_group d g h sg) (run rt rqs []))"
    by (simp add: ordered_store_def)
  then show ?thesis by (rule listed_sequenced)
qed

theorem positions_sequenced_witness:
  "admissible example_runtime
     [Join 5 (example_payload ''q0''), Join 6 (example_payload ''q1''), Cancel ''q0''] [] \<and>
   sequenced (filter (in_group ''2026-01-31'' 2 ''AC'' ''front'')
     (run example_runtime
        [Join 5 (example_payload ''q0''), Join 6 (example_payload ''q1''), Cancel ''q0''] []))"
proof -
  have j1: "handle example_runtime (Join 5 (example_payload ''q0'')) [] = [example_entry ''q0'' 1 5]"
    by (simp add: handle_def join_example_payload next_position_def session_merge_def)
  have j2: "handle example_runtime (Join 6 (example_payload ''q1'')) [example_entry ''q0'' 1 5]
      = [example_entry ''q0'' 1 5, example_entry ''q1'' 2 6]"
    by (simp add: handle_def join_example_payload next_position_def session_merge_def
        in_group_def example_entry_def)
  have f1: "fresh_join example_runtime (Join 5 (example_payload ''q0'')) []"
    by (simp add: fresh_join_def example_payload_def)
  have f2: "fresh_join example_runtime (Join 6 (example_payload ''q1'')) [example_entry ''q0'' 1 5]"
    by (simp add: fresh_join_def example_payload_def py_str_def example_entry_def)
  have f3: "fresh_join example_runtime (Cancel ''q0'') s" for s
    by (simp add: fresh_join_def)
  have h: "admissible example_runtime
     [Join 5 (example_payload ''q0''), Join 6 (example_payload ''q1''), Cancel ''q0''] []"
    by (simp add: j1 j2 f1 f2 f3)
  from h positions_sequenced [OF h] show ?thesis by (rule conjI)
qed

text \<open>
  The claim as stated covers every join. A second join under an id that is already in the
  group replaces the row and gives it the position 2, in a group of one row.
\<close>

theorem rejoin_breaks_sequence_counterexample:
  "run example_runtime [Join 5 (example_payload ''q0''), Join 6 (example_payload ''q0'')] []
     = [example_entry ''q0'' 2 6] \<and>
   \<not> sequenced (filter (in_group ''2026-01-31'' 2 ''AC'' ''front'') [example_entry ''q0'' 2 6])"
proof -
  have j1: "handle example_runtime (Join 5 (example_payload ''q0'')) [] = [example_entry ''q0'' 1 5]"
    by (simp add: handle_def join_example_payload next_position_def session_merge_def)
  have j2: "handle example_runtime (Join 6 (example_payload ''q0'')) [example_entry ''q0'' 1 5]
      = [example_entry ''q0'' 2 6]"
    by (simp add: handle_def join_example_payload next_position_def session_merge_def
        in_group_def example_entry_def)
  have r: "run example_runtime [Join 5 (example_payload ''q0''), Join 6 (example_payload ''q0'')] []
     = [example_entry ''q0'' 2 6]"
    by (simp add: run_def j1 j2)
  have g: "filter (in_group ''2026-01-31'' 2 ''AC'' ''front'') [example_entry ''q0'' 2 6]
      = [example_entry ''q0'' 2 6]"
    by (simp add: in_group_def example_entry_def)
  have n: "\<not> sequenced [example_entry ''q0'' 2 6]"
    by (simp add: sequenced_def example_entry_def)
  from r g n show ?thesis by simp
qed

section \<open>Index creation in the accessors\<close>

lemma returned_le: "returned ci c specs db \<le> length specs"
  by (induction specs arbitrary: db) (simp_all split: outcome.split)

lemma returned_all:
  "\<forall>i \<in> set specs. \<forall>d. \<exists>d'. ci c i d = Done d' \<Longrightarrow> returned ci c specs db = length specs"
proof (induction specs arbitrary: db)
  case Nil
  show ?case by simp
next
  case (Cons i specs)
  from Cons.prems have "\<exists>d'. ci c i db = Done d'" by simp
  then obtain db1 where db1: "ci c i db = Done db1" ..
  from Cons.prems have "\<forall>i \<in> set specs. \<forall>d. \<exists>d'. ci c i d = Done d'" by simp
  from Cons.IH [OF this, of db1] db1 show ?case by simp
qed

lemma returned_first_raise:
  assumes "j < length specs"
    and "\<forall>i \<in> set (take j specs). \<forall>d. \<exists>d'. ci c i d = Done d'"
    and "\<forall>d. \<exists>err d'. ci c (specs ! j) d = Raised err d'"
  shows "returned ci c specs db = j"
  using assms
proof (induction specs arbitrary: j db)
  case Nil
  then show ?case by simp
next
  case (Cons i specs)
  show ?case
  proof (cases j)
    case 0
    with Cons.prems(3) have "\<exists>err d'. ci c i db = Raised err d'" by simp
    then obtain err d' where "ci c i db = Raised err d'" by blast
    with 0 show ?thesis by simp
  next
    case (Suc j')
    with Cons.prems(2) have "\<exists>d'. ci c i db = Done d'" by simp
    then obtain db1 where db1: "ci c i db = Done db1" ..
    from Suc Cons.prems have "j' < length specs"
      "\<forall>i \<in> set (take j' specs). \<forall>d. \<exists>d'. ci c i d = Done d'"
      "\<forall>d. \<exists>err d'. ci c (specs ! j') d = Raised err d'"
      by simp_all
    from Cons.IH [OF this, of db1] db1 Suc show ?thesis by simp
  qed
qed

lemma create_all_logged:
  "except_pass (create_all (logging ci) c specs (calls, db))
     = (calls @ map (\<lambda>i. (c, i, True)) (take (returned ci c specs db) specs) @
          (if returned ci c specs db < length specs
           then [(c, specs ! returned ci c specs db, False)] else []),
        except_pass (create_all ci c specs db))"
proof (induction specs arbitrary: calls db)
  case Nil
  show ?case by (simp add: except_pass_def)
next
  case (Cons i specs)
  show ?case
  proof (cases "ci c i db")
    case (Raised err db1)
    then show ?thesis by (simp add: logging_def except_pass_def)
  next
    case (Done db1)
    with Cons.IH [of "calls @ [(c, i, True)]" db1] show ?thesis
      by (simp add: logging_def)
  qed
qed

lemma create_all_noop:
  "\<forall>i \<in> set specs. ci c i db = Done db \<Longrightarrow> create_all ci c specs db = Done db"
  by (induction specs) simp_all

text \<open>
  Claim C9. For each of the six accessors (users, menu_items, feedback, orders,
  reservations, reservation_waiting_queue), every behaviour of \<^verbatim>\<open>create_index\<close>,
  raising or not, and every state of the server: the accessor has at least one index to
  create and returns its collection, whatever \<^verbatim>\<open>create_index\<close> raises; where creating
  each of its indexes changes nothing, as for indexes that exist, the access leaves the
  server as it was. The calls of \<^verbatim>\<open>create_index\<close> it makes are those for its first \<open>m\<close>
  indexes in order, which all return, followed, when \<open>m\<close> is not the number of its
  indexes, by the call for the next index, which raises and is the last call. When no index
  of the accessor can fail, all of them are attempted; when the index at place \<open>j\<close> always
  fails and none before it can, the calls are those for the indexes up to that one and
  none after it. Recording the calls does not change the state the access leaves.
\<close>

theorem accessors_swallow_index_errors:
  "\<forall>((c, specs, acc), (c', specs', acc_logged))
      \<in> set (zip (accessors create_index) (accessors (logging create_index))).
      c' = c \<and> specs' = specs \<and>
      specs \<noteq> [] \<and>
      (\<exists>db'. acc db = Inr (c, db') \<and>
         ((\<forall>i \<in> set specs. create_index c i db = Done db) \<longrightarrow> db' = db) \<and>
         (\<exists>m \<le> length specs.
            acc_logged (calls, db)
              = Inr (c, (calls @ map (\<lambda>i. (c, i, True)) (take m specs) @
                           (if m < length specs then [(c, specs ! m, False)] else []),
                         db')) \<and>
            ((\<forall>i \<in> set specs. \<forall>d. \<exists>d'. create_index c i d = Done d') \<longrightarrow> m = length specs) \<and>
            (\<forall>j < length specs.
               (\<forall>i \<in> set (take j specs). \<forall>d. \<exists>d'. create_index c i d = Done d') \<and>
               (\<forall>d. \<exists>err d'. create_index c (specs ! j) d = Raised err d') \<longrightarrow> m = j)))"
proof -
  let ?P = "\<lambda>c specs acc acc_logged.
      specs \<noteq> [] \<and>
      (\<exists>db'. acc db = Inr (c, db') \<and>
         ((\<forall>i \<in> set specs. create_index c i db = Done db) \<longrightarrow> db' = db) \<and>
         (\<exists>m \<le> length specs.
            acc_logged (calls, db)
              = Inr (c, (calls @ map (\<lambda>i. (c, i, True)) (take m specs) @
                           (if m < length specs then [(c, specs ! m, False)] else []),
                         db')) \<and>
            ((\<forall>i \<in> set specs. \<forall>d. \<exists>d'. create_index c i d = Done d') \<longrightarrow> m = length specs) \<and>
            (\<forall>j < length specs.
               (\<forall>i \<in> set (take j specs). \<forall>d. \<exists>d'. create_index c i d = Done d') \<and>
               (\<forall>d. \<exists>err d'. create_index c (specs ! j) d = Raised err d') \<longrightarrow> m = j)))"
  have gen: "?P c specs (\<lambda>db. Inr (c, except_pass (create_all create_index c specs db)))
      (\<lambda>st. Inr (c, except_pass (create_all (logging create_index) c specs st)))"
    if ne: "specs \<noteq> []" for c specs
  proof -
    let ?m = "returned create_index c specs db"
    let ?db' = "except_pass (create_all create_index c specs db)"
    have noop: "(\<forall>i \<in> set specs. create_index c i db = Done db) \<longrightarrow> ?db' = db"
      by (simp add: create_all_noop except_pass_def)
    have le: "?m \<le> length specs" by (rule returned_le)
    have logged: "Inr (c, except_pass (create_all (logging create_index) c specs (calls, db)))
        = Inr (c, (calls @ map (\<lambda>i. (c, i, True)) (take ?m specs) @
                     (if ?m < length specs then [(c, specs ! ?m, False)] else []),
                   ?db'))"
      by (simp only: create_all_logged)
    have all: "(\<forall>i \<in> set specs. \<forall>d. \<exists>d'. create_index c i d = Done d') \<longrightarrow> ?m = length specs"
      using returned_all [of specs create_index c db] by blast
    have first: "\<forall>j < length specs.
        (\<forall>i \<in> set (take j specs). \<forall>d. \<exists>d'. create_index c i d = Done d') \<and>
        (\<forall>d. \<exists>err d'. create_index c (specs ! j) d = Raised err d') \<longrightarrow> ?m = j"
      using returned_first_raise [of _ specs create_index c db] by blast
    have ex: "\<exists>m \<le> length specs.
            Inr (c, except_pass (create_all (logging create_index) c specs (calls, db)))
              = Inr (c, (calls @ map (\<lambda>i. (c, i, True)) (take m specs) @
                           (if m < length specs then [(c, specs ! m, False)] else []),
                         ?db')) \<and>
            ((\<forall>i \<in> set specs. \<forall>d. \<exists>d'. create_index c i d = Done d') \<longrightarrow> m = length specs) \<and>
            (\<forall>j < length specs.
               (\<forall>i \<in> set (take j specs). \<forall>d. \<exists>d'. create_index c i d = Done d') \<and>
               (\<forall>d. \<exists>err d'. create_index c (specs ! j) d = Raised err d') \<longrightarrow> m = j)"
      by (rule exI [of _ ?m]) (intro conjI le logged all first)
    show ?thesis
      apply (rule conjI [OF ne])
      apply (rule exI [of _ ?db'])
      apply (intro conjI refl noop ex)
      done
  qed
  note defs = get_users_collection_def get_menu_collection_def get_feedback_collection_def
    get_orders_collection_def get_reservations_collection_def get_waiting_queue_collection_def
  have u: "?P ''users'' [Index ''email'' True]
      (get_users_collection create_index) (get_users_collection (logging create_index))"
    unfolding defs Let_def by (rule gen) simp
  have m: "?P ''menu_items'' [Index ''id'' True, Index ''category'' False, Index ''isVeg'' False]
      (get_menu_collection create_index) (get_menu_collection (logging create_index))"
    unfolding defs Let_def by (rule gen) simp
  have f: "?P ''feedback''
      [Index ''id'' True, Index ''userId'' False, Index ''orderId'' False,
       Index ''createdAt'' False]
      (get_feedback_collection create_index) (get_feedback_collection (logging create_index))"
    unfolding defs Let_def by (rule gen) simp
  have o: "?P ''orders'' [Index ''id'' True, Index ''userId'' False, Index ''date'' False]
      (get_orders_collection create_index) (get_orders_collection (logging create_index))"
    unfolding defs Let_def by (rule gen) simp
  have r: "?P ''reservations''
      [Index ''reservationId'' True, Index ''userId'' False, Index ''date'' False,
       Index ''timeSlot'' False]
      (get_reservations_collection create_index)
      (get_reservations_collection (logging create_index))"
    unfolding defs Let_def by (rule gen) simp
  have w: "?P ''reservation_waiting_queue''
      [Index ''queueId'' True, Index ''userId'' False, Index ''date'' False,
       Index ''timeSlot'' False]
      (get_waiting_queue_collection create_index)
      (get_waiting_queue_collection (logging create_index))"
    unfolding defs Let_def by (rule gen) simp
  show ?thesis
    unfolding accessors_def using u m f o r w
    by (simp only: zip_Cons_Cons zip_Nil list.set ball_simps prod.case simp_thms)
qed

theorem accessors_swallow_index_errors_witness:
  "((''users'', [Index ''email'' True], get_users_collection example_create_index),
    (''users'', [Index ''email'' True], get_users_collection (logging example_create_index)))
     \<in> set (zip (accessors example_create_index) (accessors (logging example_create_index))) \<and>
   example_create_index ''users'' (Index ''email'' True) [(''users'', Index ''email'' True)]
     = Done [(''users'', Index ''email'' True)] \<and>
   get_users_collection example_create_index [(''users'', Index ''email'' True)]
     = Inr (''users'', [(''users'', Index ''email'' True)]) \<and>
   ((''menu_items'', [Index ''id'' True, Index ''category'' False, Index ''isVeg'' False],
       get_menu_collection example_failing_index),
    (''menu_items'', [Index ''id'' True, Index ''category'' False, Index ''isVeg'' False],
       get_menu_collection (logging example_failing_index)))
     \<in> set (zip (accessors example_failing_index) (accessors (logging example_failing_index))) \<and>
   (\<forall>d. example_failing_index ''menu_items'' (Index ''id'' True) d
          = Done (d @ [(''menu_items'', Index ''id'' True)])) \<and>
   (\<forall>d. example_failing_index ''menu_items'' (Index ''category'' False) d
          = Raised ''OperationFailure'' d) \<and>
   (\<exists>db'. get_menu_collection example_failing_index [] = Inr (''menu_items'', db') \<and>
      get_menu_collection (logging example_failing_index) ([], [])
        = Inr (''menu_items'',
               ([(''menu_items'', Index ''id'' True, True),
                 (''menu_items'', Index ''category'' False, False)], db'))) \<and>
   ((''users'', [Index ''email'' True], get_users_collection example_failing_index),
    (''users'', [Index ''email'' True], get_users_collection (logging example_failing_index)))
     \<in> set (zip (accessors example_failing_index) (accessors (logging example_failing_index))) \<and>
   (\<forall>d. example_failing_index ''users'' (Index ''email'' True) d
          = Done (d @ [(''users'', Index ''email'' True)])) \<and>
   (\<exists>db'. get_users_collection example_failing_index [] = Inr (''users'', db') \<and>
      get_users_collection (logging example_failing_index) ([], [])
        = Inr (''users'', ([(''users'', Index ''email'' True, True)], db')))"
proof -
  let ?db = "[(''users'', Index ''email'' True)]"
  let ?menu = "[Index ''id'' True, Index ''category'' False, Index ''isVeg'' False]"
  note t1 = accessors_swallow_index_errors
    [where create_index = example_create_index and db = ?db and calls = "[]"]
  note t2 = accessors_swallow_index_errors
    [where create_index = example_failing_index and db = "[]" and calls = "[]"]
  have m1: "((''users'', [Index ''email'' True], get_users_collection example_create_index),
      (''users'', [Index ''email'' True], get_users_collection (logging example_create_index)))
     \<in> set (zip (accessors example_create_index) (accessors (logging example_create_index)))"
    by (simp add: accessors_def)
  have h1: "example_create_index ''users'' (Index ''email'' True) ?db = Done ?db"
    by (simp add: example_create_index_def)
  from bspec [OF t1 m1, simplified prod.case] obtain db1 where db1:
    "get_users_collection example_create_index ?db = Inr (''users'', db1)"
    "(\<forall>i \<in> set [Index ''email'' True].
        example_create_index ''users'' i ?db = Done ?db) \<longrightarrow> db1 = ?db"
    by blast
  from db1(2) h1 have "db1 = ?db" by simp
  with db1(1) have c1: "get_users_collection example_create_index ?db = Inr (''users'', ?db)"
    by simp
  have m2: "((''menu_items'', ?menu, get_menu_collection example_failing_index),
      (''menu_items'', ?menu, get_menu_collection (logging example_failing_index)))
     \<in> set (zip (accessors example_failing_index) (accessors (logging example_failing_index)))"
    by (simp add: accessors_def)
  have h2: "\<forall>d. example_failing_index ''menu_items'' (Index ''id'' True) d
          = Done (d @ [(''menu_items'', Index ''id'' True)])"
    by (simp add: example_failing_index_def)
  have h3: "\<forall>d. example_failing_index ''menu_items'' (Index ''category'' False) d
          = Raised ''OperationFailure'' d"
    by (simp add: example_failing_index_def)
  from bspec [OF t2 m2, simplified prod.case] obtain db2 n where n:
    "get_menu_collection example_failing_index [] = Inr (''menu_items'', db2)"
    "get_menu_collection (logging example_failing_index) ([], [])
       = Inr (''menu_items'',
              ([] @ map (\<lambda>i. (''menu_items'', i, True)) (take n ?menu) @
                 (if n < length ?menu then [(''menu_items'', ?menu ! n, False)] else []),
               db2))"
    "\<forall>j < length ?menu.
       (\<forall>i \<in> set (take j ?menu).
          \<forall>d. \<exists>d'. example_failing_index ''menu_items'' i d = Done d') \<and>
       (\<forall>d. \<exists>err d'. example_failing_index ''menu_items'' (?menu ! j) d = Raised err d')
       \<longrightarrow> n = j"
    by blast
  from n(3) [rule_format, of "Suc 0"] h2 h3 have "n = Suc 0" by simp
  with n(1,2) have c2: "\<exists>db'. get_menu_collection example_failing_index []
        = Inr (''menu_items'', db') \<and>
      get_menu_collection (logging example_failing_index) ([], [])
        = Inr (''menu_items'',
               ([(''menu_items'', Index ''id'' True, True),
                 (''menu_items'', Index ''category'' False, False)], db'))"
    by simp
  have m3: "((''users'', [Index ''email'' True], get_users_collection example_failing_index),
      (''users'', [Index ''email'' True], get_users_collection (logging example_failing_index)))
     \<in> set (zip (accessors example_failing_index) (accessors (logging example_failing_index)))"
    by (simp add: accessors_def)
  have h4: "\<forall>d. example_failing_index ''users'' (Index ''email'' True) d
          = Done (d @ [(''users'', Index ''email'' True)])"
    by (simp add: example_failing_index_def)
  from bspec [OF t2 m3, simplified prod.case] obtain db3 k where k:
    "get_users_collection example_failing_index [] = Inr (''users'', db3)"
    "get_users_collection (logging example_failing_index) ([], [])
       = Inr (''users'',
              ([] @ map (\<lambda>i. (''users'', i, True)) (take k [Index ''email'' True]) @
                 (if k < length [Index ''email'' True]
                  then [(''users'', [Index ''email'' True] ! k, False)] else []),
               db3))"
    "(\<forall>i \<in> set [Index ''email'' True].
        \<forall>d. \<exists>d'. example_failing_index ''users'' i d = Done d')
       \<longrightarrow> k = length [Index ''email'' True]"
    by blast
  from k(3) h4 have "k = Suc 0" by simp
  with k(1,2) have c3: "\<exists>db'. get_users_collection example_failing_index []
        = Inr (''users'', db') \<and>
      get_users_collection (logging example_failing_index) ([], [])
        = Inr (''users'', ([(''users'', Index ''email'' True, True)], db'))"
    by simp
  show ?thesis
    by (rule conjI [OF m1 conjI [OF h1 conjI [OF c1 conjI [OF m2 conjI [OF h2 conjI [OF h3
      conjI [OF c2 conjI [OF m3 conjI [OF h4 c3]]]]]]]]])
qed

end
